theory Spec2Isabelle
  imports Main "HOL-Library.Word"
begin

section \<open>The chain of cells\<close>

text \<open>
  The package \<^verbatim>\<open>chancell\<close> keeps a singly linked chain of cells. Producers write into
  the cell the tail points at, consumers read the cell the head points at. The file
  exists in two revisions that share the tail (\<^verbatim>\<open>ChanCellTail\<close>) word for word and
  differ in the consumer side: one has a locked \<^verbatim>\<open>ChanCellHead\<close> with
  \<^verbatim>\<open>Next(current, fun)\<close>, the other a \<^verbatim>\<open>drained\<close> flag in each cell and a method
  \<^verbatim>\<open>ChanCell.Next()\<close>. Both are embedded over one state, so that the shared tail is
  stated once. The README holds a third piece of code, an actor that uses the package
  with the locked head; it is embedded after the package.

  A pointer to a cell is the index of the cell in the heap of the chain; \<^verbatim>\<open>nil\<close> is
  \<open>None\<close>. \<^verbatim>\<open>new(ChanCell)\<close> appends a zeroed cell, so its address is the length of the
  heap before the allocation.
\<close>

type_synonym addr = nat

record ChanCell =
  nxt :: "addr option"
  drained :: bool

definition new_ChanCell :: ChanCell where
  "new_ChanCell = \<lparr>nxt = None, drained = False\<rparr>"

text \<open>
  The fields \<^verbatim>\<open>Open\<close> and \<^verbatim>\<open>Close\<close> of a cell and the initialiser of the tail are
  functions of the caller. The package only calls them, so the embedding records each
  call, in the order the calls are made. \<^verbatim>\<open>int\<close> is the 64 bit integer of the usual
  platforms: \<^verbatim>\<open>tail.n *= 2\<close> wraps.
\<close>

datatype event = Init "64 word" addr | Open addr | Close addr

datatype panic =
    NilDereference
  | CloseOfClosedChannel
  | SendOnClosedChannel
  | MakeChanSizeOutOfRange

record chain =
  heap :: "ChanCell list"
  head_cell :: "addr option"
  tail_cell :: "addr option"
  tail_n :: "64 word"
  Terminated :: bool
  calls :: "event list"

definition DefaultChanLength :: "64 word" where
  "DefaultChanLength = 16"

text \<open>
  \<^verbatim>\<open>NewChanCellTail\<close>: one cell, initialised with the default length and opened; head
  and tail both point at it; the channel \<^verbatim>\<open>Terminated\<close> is open.
\<close>

definition NewChanCellTail :: chain where
  "NewChanCellTail =
     \<lparr>heap = [new_ChanCell], head_cell = Some 0, tail_cell = Some 0,
      tail_n = DefaultChanLength, Terminated = False,
      calls = [Init DefaultChanLength 0, Open 0]\<rparr>"

subsection \<open>The tail\<close>

text \<open>
  \<^verbatim>\<open>expand(read)\<close> runs under the exclusive lock of the tail. When the tail still points
  at \<^verbatim>\<open>read\<close> it allocates a cell, doubles \<^verbatim>\<open>n\<close>, calls the initialiser, links the new
  cell behind \<^verbatim>\<open>read\<close>, moves the tail and calls \<^verbatim>\<open>read.Close()\<close>.
\<close>

definition expand :: "chain \<Rightarrow> addr \<Rightarrow> chain" where
  "expand s read =
     (if tail_cell s = Some read then
        let newCell = length (heap s);
            n = tail_n s * 2
        in s\<lparr>heap := (heap s)[read := (heap s ! read)\<lparr>nxt := Some newCell\<rparr>] @ [new_ChanCell],
             tail_n := n,
             tail_cell := Some newCell,
             calls := calls s @ [Init n newCell, Close read]\<rparr>
      else s)"

text \<open>
  \<^verbatim>\<open>Terminate\<close> has two parts: under the lock the tail is set to \<^verbatim>\<open>nil\<close>; after the
  lock is released the channel \<^verbatim>\<open>Terminated\<close> is closed. Closing a closed channel
  panics.
\<close>

definition Terminate_clear :: "chain \<Rightarrow> chain" where
  "Terminate_clear s = s\<lparr>tail_cell := None\<rparr>"

definition Terminate_close :: "chain \<Rightarrow> panic + chain" where
  "Terminate_close s =
     (if Terminated s then Inl CloseOfClosedChannel else Inr (s\<lparr>Terminated := True\<rparr>))"

definition Terminate :: "chain \<Rightarrow> panic + chain" where
  "Terminate s = Terminate_close (Terminate_clear s)"

text \<open>
  An attempt of a producer is a function from the current cell to a flag and an
  optional continuation. Its type refers to itself, and an attempt may hand itself back
  for ever, so it is a codatatype.
\<close>

codatatype CurCellConsumer =
  CurCellConsumer (call: "addr \<Rightarrow> bool \<times> CurCellConsumer option")

text \<open>
  \<^verbatim>\<open>WithCell\<close> loops until the attempt succeeds or the tail is \<^verbatim>\<open>nil\<close>. The loop need
  not end, so a call that never returns is \<open>None\<close>.
\<close>

partial_function (option) WithCell :: "chain \<Rightarrow> CurCellConsumer \<Rightarrow> (bool \<times> chain) option" where
  "WithCell s fun =
     (case tail_cell s of
        None \<Rightarrow> Some (False, s)
      | Some cell \<Rightarrow>
          (case call fun cell of
             (success, newFun) \<Rightarrow>
               if success then Some (True, s)
               else (case newFun of
                       None \<Rightarrow> WithCell (expand s cell) fun
                     | Some g \<Rightarrow> WithCell s g)))"

subsection \<open>The consumer side\<close>

text \<open>
  An address that holds no cell of the chain stands for \<^verbatim>\<open>nil\<close>: reading a field through
  it panics.
\<close>

definition cell_at :: "chain \<Rightarrow> addr \<Rightarrow> ChanCell option" where
  "cell_at s a = (if a < length (heap s) then Some (heap s ! a) else None)"

text \<open>
  \<^verbatim>\<open>ChanCell.Next\<close>, first part, under the lock of the cell: read \<^verbatim>\<open>next\<close>; a cell not
  yet drained is marked and \<^verbatim>\<open>next.Open()\<close> is called. With \<^verbatim>\<open>next == nil\<close> the call
  \<^verbatim>\<open>next.Open()\<close>, or else \<^verbatim>\<open>next.Lock()\<close> right after, panics.
\<close>

definition Next_mark :: "chain \<Rightarrow> addr \<Rightarrow> panic + addr \<times> chain" where
  "Next_mark s cell =
     (case cell_at s cell of
        None \<Rightarrow> Inl NilDereference
      | Some c \<Rightarrow>
          (case nxt c of
             None \<Rightarrow> Inl NilDereference
           | Some next \<Rightarrow>
               if \<not> drained c
               then Inr (next, s\<lparr>heap := (heap s)[cell := c\<lparr>drained := True\<rparr>],
                                calls := calls s @ [Open next]\<rparr>)
               else Inr (next, s)))"

text \<open>
  Second part: under the lock of the successor its flag is read; a drained successor
  is advanced in turn. The recursion follows the links of the heap, and a heap with a
  cycle of drained cells would keep it going, so a call that never returns is \<open>None\<close>.
\<close>

partial_function (option) Next :: "chain \<Rightarrow> addr \<Rightarrow> (panic + addr \<times> chain) option" where
  "Next s cell =
     (case Next_mark s cell of
        Inl p \<Rightarrow> Some (Inl p)
      | Inr (next, s') \<Rightarrow>
          (case cell_at s' next of
             None \<Rightarrow> Some (Inl NilDereference)
           | Some c \<Rightarrow> if drained c then Next s' next else Some (Inr (next, s'))))"

text \<open>
  The other revision: \<^verbatim>\<open>ChanCellHead.WithCell(fun)\<close> hands the cell of the head to
  \<^verbatim>\<open>fun\<close>; \<^verbatim>\<open>ChanCellHead.Next(current, fun)\<close> moves the head to \<^verbatim>\<open>current.next\<close> and
  opens it when the head still points at \<^verbatim>\<open>current\<close>, then hands the cell of the head to
  \<^verbatim>\<open>fun\<close>. The result is the cell \<^verbatim>\<open>fun\<close> receives.
\<close>

definition Head_WithCell :: "chain \<Rightarrow> addr option" where
  "Head_WithCell s = head_cell s"

definition Head_Next :: "chain \<Rightarrow> addr \<Rightarrow> panic + addr option \<times> chain" where
  "Head_Next s current =
     (if head_cell s = Some current then
        (case cell_at s current of
           None \<Rightarrow> Inl NilDereference
         | Some c \<Rightarrow>
             (case nxt c of
                None \<Rightarrow> Inl NilDereference
              | Some next \<Rightarrow>
                  let s' = s\<lparr>head_cell := Some next, calls := calls s @ [Open next]\<rparr>
                  in Inr (Head_WithCell s', s')))
      else Inr (Head_WithCell s, s))"

subsection \<open>Executions\<close>

text \<open>
  Producers and consumers run concurrently. Every access to the tail is inside a section
  of its lock, every access to \<^verbatim>\<open>next\<close> and \<^verbatim>\<open>drained\<close> inside a section of the lock of
  the cell, and the head of the first revision is changed under its own lock. An
  execution is therefore a sequence of such sections, in the order the locks were
  granted. The sections that write are: \<^verbatim>\<open>expand\<close> (its one write to a cell,
  \<^verbatim>\<open>read.next\<close>, is made inside the section of the tail), the two parts of
  \<^verbatim>\<open>Terminate\<close>, the first part of \<^verbatim>\<open>ChanCell.Next\<close> and the locked part of
  \<^verbatim>\<open>ChanCellHead.Next\<close>. The attempt section of \<^verbatim>\<open>WithCell\<close> and the second part of
  \<^verbatim>\<open>ChanCell.Next\<close> only read. A panic ends the execution.

  \<^verbatim>\<open>expand\<close> is one section for every goroutine that takes the lock of the tail. A
  consumer takes only the lock of a cell, so its section can fall between
  \<^verbatim>\<open>read.next = newCell\<close> and \<^verbatim>\<open>read.Close()\<close>; the two then write different fields, and
  the result differs from the one recorded here only in whether \<^verbatim>\<open>Close\<close> of the cell or
  \<^verbatim>\<open>Open\<close> of its successor comes first in the record of calls. No property below depends
  on that order.
\<close>

datatype action =
    Do_expand addr
  | Do_Terminate_clear
  | Do_Terminate_close
  | Do_Next addr
  | Do_Head_Next addr

fun step :: "action \<Rightarrow> chain \<Rightarrow> panic + chain" where
  "step (Do_expand read) s = Inr (expand s read)"
| "step Do_Terminate_clear s = Inr (Terminate_clear s)"
| "step Do_Terminate_close s = Terminate_close s"
| "step (Do_Next cell) s = map_sum id snd (Next_mark s cell)"
| "step (Do_Head_Next current) s = map_sum id snd (Head_Next s current)"

fun exec :: "action list \<Rightarrow> chain \<Rightarrow> panic + chain" where
  "exec [] s = Inr s"
| "exec (a # as) s = (case step a s of Inl p \<Rightarrow> Inl p | Inr s' \<Rightarrow> exec as s')"

text \<open>The sections of the revision with \<^verbatim>\<open>ChanCell.Next\<close>, and of the one with the head.\<close>

fun of_cell_revision :: "action \<Rightarrow> bool" where
  "of_cell_revision (Do_Head_Next _) = False"
| "of_cell_revision _ = True"

fun of_head_revision :: "action \<Rightarrow> bool" where
  "of_head_revision (Do_Next _) = False"
| "of_head_revision _ = True"

subsection \<open>A producer among others\<close>

text \<open>
  The loop of \<^verbatim>\<open>WithCell\<close> once more, now with the other goroutines running: before
  each acquisition of the lock of the tail (\<^verbatim>\<open>RLock\<close> at the top of the loop, \<^verbatim>\<open>Lock\<close>
  in \<^verbatim>\<open>expand\<close>) the others run a list of sections. The schedule gives these lists in
  order; when it is used up the call has not returned yet (\<open>None\<close>).
\<close>

fun WithCell_among :: "action list list \<Rightarrow> chain \<Rightarrow> CurCellConsumer \<Rightarrow> (panic + bool \<times> chain) option" where
  "WithCell_among [] s fun = None"
| "WithCell_among (others # rest) s fun =
     (case exec others s of
        Inl p \<Rightarrow> Some (Inl p)
      | Inr s1 \<Rightarrow>
          (case tail_cell s1 of
             None \<Rightarrow> Some (Inr (False, s1))
           | Some cell \<Rightarrow>
               (case call fun cell of
                  (success, newFun) \<Rightarrow>
                    if success then Some (Inr (True, s1))
                    else (case newFun of
                            None \<Rightarrow>
                              (case rest of
                                 [] \<Rightarrow> None
                               | others' # rest' \<Rightarrow>
                                   (case exec others' s1 of
                                      Inl p \<Rightarrow> Some (Inl p)
                                    | Inr s2 \<Rightarrow> WithCell_among rest' (expand s2 cell) fun))
                          | Some g \<Rightarrow> WithCell_among rest s1 g))))"

subsection \<open>Example attempts\<close>

text \<open>
  An attempt that succeeds, one that finds the first cell full and succeeds on any
  other, and one that hands back a continuation that succeeds.
\<close>

definition succeeds :: CurCellConsumer where
  "succeeds = CurCellConsumer (\<lambda>c. (True, None))"

definition full_on_first :: CurCellConsumer where
  "full_on_first = CurCellConsumer (\<lambda>c. if c = 0 then (False, None) else (True, None))"

definition retry_once :: CurCellConsumer where
  "retry_once = CurCellConsumer (\<lambda>c. (False, Some succeeds))"

text \<open>
  An attempt that hands back a continuation on the first cell and succeeds on any other,
  with a continuation that finds the first two cells full.
\<close>

definition full_twice :: CurCellConsumer where
  "full_twice = CurCellConsumer (\<lambda>c. if c < 2 then (False, None) else (True, None))"

definition stale_then_full :: CurCellConsumer where
  "stale_then_full =
     CurCellConsumer (\<lambda>c. if c = 0 then (False, Some full_twice) else (True, None))"

text \<open>
  The loop of \<^verbatim>\<open>WithCell\<close> in the words of the specification, for comparison with the
  loop of the code: after a growth it goes on with \<open>original\<close>, the attempt the caller
  passed, whatever attempt was in use.
\<close>

partial_function (option) WithCell_as_claimed ::
    "CurCellConsumer \<Rightarrow> chain \<Rightarrow> CurCellConsumer \<Rightarrow> (bool \<times> chain) option" where
  "WithCell_as_claimed original s fun =
     (case tail_cell s of
        None \<Rightarrow> Some (False, s)
      | Some cell \<Rightarrow>
          (case call fun cell of
             (success, newFun) \<Rightarrow>
               if success then Some (True, s)
               else (case newFun of
                       None \<Rightarrow> WithCell_as_claimed original (expand s cell) original
                     | Some g \<Rightarrow> WithCell_as_claimed original s g)))"

text \<open>A chain that has grown twice.\<close>

definition three_cells :: chain where
  "three_cells = expand (expand NewChanCellTail 0) 1"

subsection \<open>Following the links\<close>

text \<open>\<open>follow h c k\<close> is the cell reached from \<open>c\<close> after \<open>k\<close> links, if there is one.\<close>

fun follow :: "ChanCell list \<Rightarrow> addr \<Rightarrow> nat \<Rightarrow> addr option" where
  "follow h c 0 = Some c"
| "follow h c (Suc k) =
     (if c < length h then (case nxt (h ! c) of None \<Rightarrow> None | Some d \<Rightarrow> follow h d k) else None)"

text \<open>The first part of \<^verbatim>\<open>ChanCell.Next\<close> on a cell whose successor is the next address.\<close>

definition mark_drained :: "chain \<Rightarrow> addr \<Rightarrow> chain" where
  "mark_drained s c = (if drained (heap s ! c) then s
         else s\<lparr>heap := (heap s)[c := (heap s ! c)\<lparr>drained := True\<rparr>],
                calls := calls s @ [Open (Suc c)]\<rparr>)"

subsection \<open>Invariants of the chain\<close>

text \<open>
  The cells are linked in the order of their allocation and the last one has no
  successor; a drained cell has a successor; the tail is \<^verbatim>\<open>nil\<close> or the last cell;
  \<^verbatim>\<open>n\<close> is the default length doubled once for each growth; the head is a cell of the
  chain; every cell was initialised once, with the length of its rank; the cells closed
  are those with a successor.
\<close>

definition inv_links :: "chain \<Rightarrow> bool" where
  "inv_links s \<longleftrightarrow> heap s \<noteq> [] \<and>
     (\<forall>c < length (heap s). nxt (heap s ! c) = (if Suc c < length (heap s) then Some (Suc c) else None))"

definition inv_drained :: "chain \<Rightarrow> bool" where
  "inv_drained s \<longleftrightarrow> (\<forall>c < length (heap s). drained (heap s ! c) \<longrightarrow> Suc c < length (heap s))"

definition inv_tail :: "chain \<Rightarrow> bool" where
  "inv_tail s \<longleftrightarrow> (tail_cell s = None \<or> tail_cell s = Some (length (heap s) - 1)) \<and>
     tail_n s = DefaultChanLength * 2 ^ (length (heap s) - 1)"

definition inv_head :: "chain \<Rightarrow> bool" where
  "inv_head s \<longleftrightarrow> (\<exists>h. head_cell s = Some h \<and> h < length (heap s))"

definition inv_Init :: "chain \<Rightarrow> bool" where
  "inv_Init s \<longleftrightarrow> (\<forall>n a. count_list (calls s) (Init n a) =
        (if a < length (heap s) \<and> n = DefaultChanLength * 2 ^ a then 1 else 0))"

definition inv_Close :: "chain \<Rightarrow> bool" where
  "inv_Close s \<longleftrightarrow> (\<forall>c. count_list (calls s) (Close c) = (if Suc c < length (heap s) then 1 else 0))"

definition chain_inv :: "chain \<Rightarrow> bool" where
  "chain_inv s \<longleftrightarrow> inv_links s \<and> inv_drained s \<and> inv_tail s \<and> inv_head s \<and> inv_Init s \<and> inv_Close s"

text \<open>
  The cells opened: with \<^verbatim>\<open>ChanCell.Next\<close>, the first cell and the successors of the
  drained cells; with \<^verbatim>\<open>ChanCellHead\<close>, the cells up to the head.
\<close>

definition inv_Open_cell :: "chain \<Rightarrow> bool" where
  "inv_Open_cell s \<longleftrightarrow> (\<forall>d. count_list (calls s) (Open d) =
      (if d = 0 \<or> (\<exists>c < length (heap s). d = Suc c \<and> drained (heap s ! c)) then 1 else 0))"

definition inv_Open_head :: "chain \<Rightarrow> bool" where
  "inv_Open_head s \<longleftrightarrow> (\<forall>d. count_list (calls s) (Open d) =
      (if \<exists>h. head_cell s = Some h \<and> d \<le> h then 1 else 0))"

section \<open>The actor of the README\<close>

text \<open>
  The README shows the package in use: an actor with any number of producers and one
  loop that consumes. Its initialiser makes a Go channel of the given length for the new
  cell, sets \<^verbatim>\<open>Open\<close> of the cell to store that channel in the actor, sets \<^verbatim>\<open>Close\<close> of
  the cell to close that channel, and replaces \<^verbatim>\<open>enqueueMsgInner\<close> of the actor by a
  function that sends into that channel without blocking. The README is the one of the
  revision with \<^verbatim>\<open>ChanCellHead\<close>; the tail, and with it the producers, is the same in the
  revision with \<^verbatim>\<open>ChanCell.Next\<close>, where only the advance of the loop differs.

  A channel is a queue with a capacity and a flag. \<^verbatim>\<open>make\<close> with a negative length
  panics. A channel of length 0 would need a waiting receiver for a send to go through;
  the length is 0 only after \<^verbatim>\<open>n\<close> has wrapped, and by then \<^verbatim>\<open>make\<close> has panicked on a
  negative length.
\<close>

record 'm chan =
  buffer :: "'m list"
  capacity :: nat
  closed :: bool

definition make_chan :: "64 word \<Rightarrow> panic + 'm chan" where
  "make_chan n =
     (if sint n < 0 then Inl MakeChanSizeOutOfRange
      else Inr \<lparr>buffer = [], capacity = nat (sint n), closed = False\<rparr>)"

text \<open>
  The state of the actor: the chain; the channel the initialiser made for each cell;
  the cell that \<^verbatim>\<open>enqueueMsgInner\<close> was last set for; the field \<^verbatim>\<open>msgChan\<close>, as the cell
  whose channel it holds; the variables \<^verbatim>\<open>msgChan\<close> and \<^verbatim>\<open>msgCell\<close> of \<^verbatim>\<open>actorLoop\<close> and
  whether the loop is about to call \<^verbatim>\<open>Next\<close>. Two lists record, for the properties, the
  messages in the order in which their sends went through and in the order in which the
  loop received them, each with the cell of its channel.
\<close>

record 'm MyActor =
  cells :: chain
  chans :: "addr \<Rightarrow> 'm chan option"
  inner_cell :: addr
  msgChan :: addr
  loop_msgChan :: addr
  loop_msgCell :: "addr option"
  loop_at_Next :: bool
  enqueued :: "(addr \<times> 'm) list"
  received :: "(addr \<times> 'm) list"

text \<open>What the three functions of the actor do when the package calls them.\<close>

fun callback :: "event \<Rightarrow> 'm MyActor \<Rightarrow> panic + 'm MyActor" where
  "callback (Init n cell) a =
     (case make_chan n of
        Inl p \<Rightarrow> Inl p
      | Inr ch \<Rightarrow> Inr (a\<lparr>chans := (chans a)(cell \<mapsto> ch), inner_cell := cell\<rparr>))"
| "callback (Open cell) a = Inr (a\<lparr>msgChan := cell\<rparr>)"
| "callback (Close cell) a =
     (case chans a cell of
        None \<Rightarrow> Inl NilDereference
      | Some ch \<Rightarrow>
          if closed ch then Inl CloseOfClosedChannel
          else Inr (a\<lparr>chans := (chans a)(cell \<mapsto> ch\<lparr>closed := True\<rparr>)\<rparr>))"

fun callbacks :: "event list \<Rightarrow> 'm MyActor \<Rightarrow> panic + 'm MyActor" where
  "callbacks [] a = Inr a"
| "callbacks (e # es) a = (case callback e a of Inl p \<Rightarrow> Inl p | Inr a' \<Rightarrow> callbacks es a')"

text \<open>A section of the package run for the actor: the calls it made are carried out.\<close>

definition on_cells :: "(chain \<Rightarrow> panic + chain) \<Rightarrow> 'm MyActor \<Rightarrow> panic + 'm MyActor" where
  "on_cells f a =
     (case f (cells a) of
        Inl p \<Rightarrow> Inl p
      | Inr s' \<Rightarrow> callbacks (drop (length (calls (cells a))) (calls s')) (a\<lparr>cells := s'\<rparr>))"

text \<open>
  \<^verbatim>\<open>NewMyActor\<close>: the chain is made, which calls the initialiser and \<^verbatim>\<open>Open\<close>, and the
  loop starts by reading \<^verbatim>\<open>msgChan\<close> of the actor and the cell of the head. Nothing but
  the loop changes these two, so the loop reads the same values whenever it starts.
\<close>

definition NewMyActor :: "panic + 'm MyActor" where
  "NewMyActor =
     (case callbacks (calls NewChanCellTail)
             \<lparr>cells = NewChanCellTail, chans = Map.empty, inner_cell = 0, msgChan = 0,
              loop_msgChan = 0, loop_msgCell = None, loop_at_Next = False,
              enqueued = [], received = []\<rparr> of
        Inl p \<Rightarrow> Inl p
      | Inr a \<Rightarrow> Inr (a\<lparr>loop_msgChan := msgChan a, loop_msgCell := Head_WithCell (cells a)\<rparr>))"

text \<open>
  One attempt of \<^verbatim>\<open>enqueueMsg\<close>, the section of \<^verbatim>\<open>WithCell\<close> under the shared lock of the
  tail. With the tail \<^verbatim>\<open>nil\<close> \<^verbatim>\<open>WithCell\<close> returns false. \<^verbatim>\<open>enqueueMsgInner\<close> sends when
  the current cell is its own and the channel has room (a send into a closed channel
  panics); with no room it reports the cell full, and the producer goes on to
  \<^verbatim>\<open>expand\<close>; for another cell it hands back the continuation.
\<close>

definition enqueue_attempt :: "'m \<Rightarrow> 'm MyActor \<Rightarrow> panic + 'm MyActor" where
  "enqueue_attempt msg a =
     (case tail_cell (cells a) of
        None \<Rightarrow> Inr a
      | Some curCell \<Rightarrow>
          if curCell = inner_cell a then
            (case chans a (inner_cell a) of
               None \<Rightarrow> Inl NilDereference
             | Some ch \<Rightarrow>
                 if closed ch then Inl SendOnClosedChannel
                 else if length (buffer ch) < capacity ch
                 then Inr (a\<lparr>chans := (chans a)(inner_cell a \<mapsto> ch\<lparr>buffer := buffer ch @ [msg]\<rparr>),
                            enqueued := enqueued a @ [(curCell, msg)]\<rparr>)
                 else Inr a)
          else Inr a)"

text \<open>
  The receive of the loop: a message, if the channel has one; on a closed empty channel
  \<^verbatim>\<open>ok\<close> is false and the loop goes on to \<^verbatim>\<open>Next\<close>; on an open empty channel it waits.
\<close>

definition loop_receive :: "'m MyActor \<Rightarrow> panic + 'm MyActor" where
  "loop_receive a =
     (if loop_at_Next a then Inr a
      else (case chans a (loop_msgChan a) of
              None \<Rightarrow> Inl NilDereference
            | Some ch \<Rightarrow>
                (case buffer ch of
                   msg # rest \<Rightarrow>
                     Inr (a\<lparr>chans := (chans a)(loop_msgChan a \<mapsto> ch\<lparr>buffer := rest\<rparr>),
                            received := received a @ [(loop_msgChan a, msg)]\<rparr>)
                 | [] \<Rightarrow> if closed ch then Inr (a\<lparr>loop_at_Next := True\<rparr>) else Inr a)))"

text \<open>
  \<^verbatim>\<open>cellHead.Next(msgCell, nextChanFun)\<close>: the head advances and opens the next cell, and
  \<^verbatim>\<open>nextChanFun\<close> reads \<^verbatim>\<open>msgChan\<close> of the actor and the cell of the head. These are
  two sections of the lock of the head; they are taken together, since the loop is the
  only goroutine that touches the head or \<^verbatim>\<open>msgChan\<close> of the actor.
\<close>

definition loop_Next :: "'m MyActor \<Rightarrow> panic + 'm MyActor" where
  "loop_Next a =
     (if \<not> loop_at_Next a then Inr a
      else (case loop_msgCell a of
              None \<Rightarrow> Inl NilDereference
            | Some msgCell \<Rightarrow>
                (case on_cells (\<lambda>s. map_sum id snd (Head_Next s msgCell)) a of
                   Inl p \<Rightarrow> Inl p
                 | Inr a' \<Rightarrow>
                     Inr (a'\<lparr>loop_msgChan := msgChan a', loop_msgCell := Head_WithCell (cells a'),
                             loop_at_Next := False\<rparr>))))"

text \<open>
  Modelled from the spec: the loop of the same actor on the revision with
  \<^verbatim>\<open>ChanCell.Next\<close>, whose README is not among the sources. There \<^verbatim>\<open>NewChanCellTail\<close>
  returns the first cell in place of a head, and the loop starts with that cell and with
  \<^verbatim>\<open>msgChan\<close> of the actor, as above. After a closed empty channel the consumer calls
  \<^verbatim>\<open>Next\<close> on the cell it has exhausted; the result becomes its cell, and it reads
  \<^verbatim>\<open>msgChan\<close> of the actor, which \<^verbatim>\<open>Open\<close> of the cell has set. \<^verbatim>\<open>Next\<close> is the function
  of the source, with its two sections and its recursion taken together: no other
  goroutine writes a flag \<^verbatim>\<open>drained\<close>, and \<^verbatim>\<open>next\<close> of a cell is written once, before the
  channel of the cell is closed. While a call of \<^verbatim>\<open>Next\<close> has not returned the loop stays
  where it is.
\<close>

definition loop_Next_cell :: "'m MyActor \<Rightarrow> panic + 'm MyActor" where
  "loop_Next_cell a =
     (if \<not> loop_at_Next a then Inr a
      else (case loop_msgCell a of
              None \<Rightarrow> Inl NilDereference
            | Some msgCell \<Rightarrow>
                (case Next (cells a) msgCell of
                   None \<Rightarrow> Inr a
                 | Some (Inl p) \<Rightarrow> Inl p
                 | Some (Inr (next, s')) \<Rightarrow>
                     (case on_cells (\<lambda>s. Inr s') a of
                        Inl p \<Rightarrow> Inl p
                      | Inr a' \<Rightarrow>
                          Inr (a'\<lparr>loop_msgChan := msgChan a', loop_msgCell := Some next,
                                  loop_at_Next := False\<rparr>)))))"

text \<open>
  The sections of an execution of the actor: the attempts and the growths of the
  producers, the receives and advances of the loop, and the two parts of \<^verbatim>\<open>Terminate\<close>.
  An execution is of one revision: the loop advances with \<^verbatim>\<open>ChanCellHead.Next\<close>
  throughout, or with \<^verbatim>\<open>ChanCell.Next\<close> throughout.
\<close>

datatype 'm actor_section =
    Enqueue_attempt 'm
  | Enqueue_expand addr
  | Loop_receive
  | Loop_Next
  | Loop_Next_cell
  | Terminate_clear_section
  | Terminate_close_section

fun run_section :: "'m actor_section \<Rightarrow> 'm MyActor \<Rightarrow> panic + 'm MyActor" where
  "run_section (Enqueue_attempt msg) a = enqueue_attempt msg a"
| "run_section (Enqueue_expand read) a = on_cells (\<lambda>s. Inr (expand s read)) a"
| "run_section Loop_receive a = loop_receive a"
| "run_section Loop_Next a = loop_Next a"
| "run_section Loop_Next_cell a = loop_Next_cell a"
| "run_section Terminate_clear_section a = on_cells (\<lambda>s. Inr (Terminate_clear s)) a"
| "run_section Terminate_close_section a = on_cells Terminate_close a"

fun with_ChanCellHead :: "'m actor_section \<Rightarrow> bool" where
  "with_ChanCellHead Loop_Next_cell = False"
| "with_ChanCellHead _ = True"

fun with_ChanCell_Next :: "'m actor_section \<Rightarrow> bool" where
  "with_ChanCell_Next Loop_Next = False"
| "with_ChanCell_Next _ = True"

fun run :: "'m actor_section list \<Rightarrow> 'm MyActor \<Rightarrow> panic + 'm MyActor" where
  "run [] a = Inr a"
| "run (x # xs) a = (case run_section x a of Inl p \<Rightarrow> Inl p | Inr a' \<Rightarrow> run xs a')"

text \<open>
  The messages still in the channels, from the cell of the loop to the last cell, and
  the invariants of the actor: every cell has its channel, closed exactly when the cell
  has a successor, and \<^verbatim>\<open>enqueueMsgInner\<close> is set for the last cell; the loop reads the
  channel of its cell, and the channels before it are empty; the messages enqueued are
  the messages received followed by the messages still in the channels, and they were
  enqueued in the order of the cells. With \<^verbatim>\<open>ChanCellHead\<close> the cell of the loop is the
  cell of the head; with \<^verbatim>\<open>ChanCell.Next\<close> the cells before it are the drained ones.
\<close>

definition in_chan :: "(addr \<Rightarrow> 'm chan option) \<Rightarrow> addr \<Rightarrow> (addr \<times> 'm) list" where
  "in_chan chs c = (case chs c of None \<Rightarrow> [] | Some ch \<Rightarrow> map (Pair c) (buffer ch))"

definition pending :: "'m MyActor \<Rightarrow> (addr \<times> 'm) list" where
  "pending a = concat (map (in_chan (chans a)) [loop_msgChan a ..< length (heap (cells a))])"

definition inv_chans :: "'m MyActor \<Rightarrow> bool" where
  "inv_chans a \<longleftrightarrow>
     (\<forall>c. (chans a c \<noteq> None) = (c < length (heap (cells a)))) \<and>
     inner_cell a = length (heap (cells a)) - 1 \<and>
     (\<forall>c ch. chans a c = Some ch \<longrightarrow> closed ch = (Suc c < length (heap (cells a))))"

definition inv_loop :: "'m MyActor \<Rightarrow> bool" where
  "inv_loop a \<longleftrightarrow>
     msgChan a = loop_msgChan a \<and>
     loop_msgCell a = Some (loop_msgChan a) \<and>
     loop_msgChan a < length (heap (cells a)) \<and>
     (\<forall>c ch. c < loop_msgChan a \<longrightarrow> chans a c = Some ch \<longrightarrow> buffer ch = []) \<and>
     (loop_at_Next a \<longrightarrow>
        (\<exists>ch. chans a (loop_msgChan a) = Some ch \<and> buffer ch = [] \<and> closed ch))"

definition inv_fifo :: "'m MyActor \<Rightarrow> bool" where
  "inv_fifo a \<longleftrightarrow>
     enqueued a = received a @ pending a \<and>
     sorted (map fst (enqueued a)) \<and>
     (\<forall>x \<in> set (enqueued a). fst x < length (heap (cells a)))"

definition actor_inv :: "'m MyActor \<Rightarrow> bool" where
  "actor_inv a \<longleftrightarrow> chain_inv (cells a) \<and> inv_chans a \<and> inv_loop a \<and> inv_fifo a"

definition inv_loop_head :: "'m MyActor \<Rightarrow> bool" where
  "inv_loop_head a \<longleftrightarrow> head_cell (cells a) = Some (loop_msgChan a)"

definition inv_loop_cell :: "'m MyActor \<Rightarrow> bool" where
  "inv_loop_cell a \<longleftrightarrow>
     (\<forall>e < length (heap (cells a)). drained (heap (cells a) ! e) = (e < loop_msgChan a))"

text \<open>
  An execution: a message is enqueued, the first cell grows, a second message is
  enqueued, and the loop receives both, advancing in between.
\<close>

definition example_sections :: "nat actor_section list" where
  "example_sections =
     [Enqueue_attempt 7, Enqueue_expand 0, Enqueue_attempt 8,
      Loop_receive, Loop_receive, Loop_Next, Loop_receive]"

definition example_actor :: "nat MyActor" where
  "example_actor = projr (run example_sections (projr NewMyActor))"

text \<open>The first part of it, after which the loop is about to advance.\<close>

definition example_prefix :: "nat actor_section list" where
  "example_prefix =
     [Enqueue_attempt 7, Enqueue_expand 0, Enqueue_attempt 8, Loop_receive, Loop_receive]"

definition example_at_Next :: "nat MyActor" where
  "example_at_Next = projr (run example_prefix (projr NewMyActor))"

text \<open>The same execution with \<^verbatim>\<open>ChanCell.Next\<close>.\<close>

definition example_sections_cell :: "nat actor_section list" where
  "example_sections_cell =
     [Enqueue_attempt 7, Enqueue_expand 0, Enqueue_attempt 8,
      Loop_receive, Loop_receive, Loop_Next_cell, Loop_receive]"

definition example_actor_cell :: "nat MyActor" where
  "example_actor_cell = projr (run example_sections_cell (projr NewMyActor))"

section \<open>Properties\<close>

subsection \<open>Executions and invariants\<close>

lemmas invs = inv_links_def inv_drained_def inv_tail_def inv_head_def inv_Init_def inv_Close_def

lemma chain_inv_New: "chain_inv NewChanCellTail"
  by (auto simp: chain_inv_def invs NewChanCellTail_def new_ChanCell_def)

lemma expand_links: "inv_links s \<Longrightarrow> inv_tail s \<Longrightarrow> inv_links (expand s read)"
  by (auto simp: invs expand_def Let_def new_ChanCell_def nth_append nth_list_update)

lemma expand_drained: "inv_links s \<Longrightarrow> inv_drained s \<Longrightarrow> inv_drained (expand s read)"
  by (auto simp: invs expand_def Let_def new_ChanCell_def nth_append nth_list_update)

lemma len_pred: "xs \<noteq> [] \<Longrightarrow> \<exists>m. length xs = Suc m"
  by (cases xs) auto

lemma expand_tail: "inv_links s \<Longrightarrow> inv_tail s \<Longrightarrow> inv_tail (expand s read)"
proof -
  assume l: "inv_links s" and t: "inv_tail s"
  from l obtain m where m: "length (heap s) = Suc m"
    using len_pred by (auto simp: inv_links_def)
  show ?thesis using t m by (auto simp: inv_tail_def expand_def Let_def)
qed

lemma expand_head: "inv_head s \<Longrightarrow> inv_head (expand s read)"
  by (auto simp: invs expand_def Let_def)

lemma expand_Init: "inv_links s \<Longrightarrow> inv_tail s \<Longrightarrow> inv_Init s \<Longrightarrow> inv_Init (expand s read)"
proof -
  assume l: "inv_links s" and t: "inv_tail s" and i: "inv_Init s"
  from l obtain m where m: "length (heap s) = Suc m"
    using len_pred by (auto simp: inv_links_def)
  show ?thesis using t m i by (auto simp: inv_tail_def inv_Init_def expand_def Let_def less_Suc_eq)
qed

lemma expand_Close: "inv_links s \<Longrightarrow> inv_tail s \<Longrightarrow> inv_Close s \<Longrightarrow> inv_Close (expand s read)"
  apply (auto simp: invs expand_def Let_def)
  done


lemma chain_inv_expand: "chain_inv s \<Longrightarrow> chain_inv (expand s read)"
  unfolding chain_inv_def
  by (simp add: expand_links expand_drained expand_tail expand_head expand_Init expand_Close)

lemma chain_inv_clear: "chain_inv s \<Longrightarrow> chain_inv (Terminate_clear s)"
  by (simp add: chain_inv_def invs Terminate_clear_def)

lemma chain_inv_close:
  assumes "chain_inv s" "Terminate_close s = Inr s'"
  shows "chain_inv s'"
proof -
  from assms(2) have "s' = s\<lparr>Terminated := True\<rparr>"
    by (simp add: Terminate_close_def split: if_splits)
  with assms(1) show ?thesis by (simp add: chain_inv_def invs)
qed

lemma Next_mark_Inr:
  "Next_mark s c = Inr (d, s') \<Longrightarrow>
     c < length (heap s) \<and> nxt (heap s ! c) = Some d \<and>
     s' = (if drained (heap s ! c) then s
           else s\<lparr>heap := (heap s)[c := (heap s ! c)\<lparr>drained := True\<rparr>], calls := calls s @ [Open d]\<rparr>)"
  by (auto simp: Next_mark_def cell_at_def split: option.splits if_splits)

lemma chain_inv_Next_mark:
  assumes "chain_inv s" "Next_mark s c = Inr (d, s')"
  shows "chain_inv s'"
proof -
  from Next_mark_Inr [OF assms(2)]
  have c: "c < length (heap s)" and n: "nxt (heap s ! c) = Some d"
    and s': "s' = (if drained (heap s ! c) then s
           else s\<lparr>heap := (heap s)[c := (heap s ! c)\<lparr>drained := True\<rparr>], calls := calls s @ [Open d]\<rparr>)"
    by auto
  from assms(1) n c have sc: "Suc c < length (heap s)"
    by (auto simp: chain_inv_def inv_links_def split: if_splits)
  have "inv_links s'" using assms(1) s' c by (simp add: chain_inv_def inv_links_def nth_list_update)
  moreover have "inv_drained s'" using assms(1) s' sc c by (simp add: chain_inv_def inv_drained_def nth_list_update)
  moreover have "inv_tail s'" using assms(1) s' by (simp add: chain_inv_def inv_tail_def)
  moreover have "inv_head s'" using assms(1) s' by (simp add: chain_inv_def inv_head_def)
  moreover have "inv_Init s'" using assms(1) s' by (simp add: chain_inv_def inv_Init_def)
  moreover have "inv_Close s'" using assms(1) s' by (simp add: chain_inv_def inv_Close_def)
  ultimately show ?thesis by (simp add: chain_inv_def)
qed

lemma Head_Next_Inr:
  "Head_Next s c = Inr (r, s') \<Longrightarrow>
     r = head_cell s' \<and>
     (if head_cell s = Some c
      then c < length (heap s) \<and> (\<exists>d. nxt (heap s ! c) = Some d \<and>
             s' = s\<lparr>head_cell := Some d, calls := calls s @ [Open d]\<rparr>)
      else s' = s)"
  by (auto simp: Head_Next_def Head_WithCell_def cell_at_def Let_def split: option.splits if_splits)

lemma chain_inv_Head_Next:
  assumes "chain_inv s" "Head_Next s c = Inr (r, s')"
  shows "chain_inv s'"
proof (cases "head_cell s = Some c")
  case False
  with Head_Next_Inr [OF assms(2)] assms(1) show ?thesis by simp
next
  case True
  with Head_Next_Inr [OF assms(2)] obtain d where c: "c < length (heap s)"
    and n: "nxt (heap s ! c) = Some d"
    and s': "s' = s\<lparr>head_cell := Some d, calls := calls s @ [Open d]\<rparr>"
    by auto
  from assms(1) n c have sc: "d < length (heap s)"
    by (auto simp: chain_inv_def inv_links_def split: if_splits)
  show ?thesis using assms(1) s' sc by (simp add: chain_inv_def invs)
qed

lemma chain_inv_step: "chain_inv s \<Longrightarrow> step a s = Inr s' \<Longrightarrow> chain_inv s'"
proof (cases a)
  case (Do_expand x1)
  then show "chain_inv s \<Longrightarrow> step a s = Inr s' \<Longrightarrow> chain_inv s'" by (auto simp: chain_inv_expand)
next
  case Do_Terminate_clear
  then show "chain_inv s \<Longrightarrow> step a s = Inr s' \<Longrightarrow> chain_inv s'" by (auto simp: chain_inv_clear)
next
  case Do_Terminate_close
  then show "chain_inv s \<Longrightarrow> step a s = Inr s' \<Longrightarrow> chain_inv s'" by (auto simp: chain_inv_close)
next
  case (Do_Next c)
  assume i: "chain_inv s" and st: "step a s = Inr s'"
  from st Do_Next obtain d where "Next_mark s c = Inr (d, s')"
    by (cases "Next_mark s c") auto
  with i show "chain_inv s'" by (rule chain_inv_Next_mark)
next
  case (Do_Head_Next c)
  assume i: "chain_inv s" and st: "step a s = Inr s'"
  from st Do_Head_Next obtain d where "Head_Next s c = Inr (d, s')"
    by (cases "Head_Next s c") auto
  with i show "chain_inv s'" by (rule chain_inv_Head_Next)
qed

lemma chain_inv_exec: "chain_inv s \<Longrightarrow> exec as s = Inr s' \<Longrightarrow> chain_inv s'"
proof (induction as arbitrary: s)
  case Nil
  then show ?case by simp
next
  case (Cons a as)
  from Cons.prems(2) obtain s1 where s1: "step a s = Inr s1" and r: "exec as s1 = Inr s'"
    by (cases "step a s") auto
  from Cons.prems(1) s1 have "chain_inv s1" by (rule chain_inv_step)
  from this r show ?case by (rule Cons.IH)
qed

lemma reachable_inv: "exec as NewChanCellTail = Inr s \<Longrightarrow> chain_inv s"
  using chain_inv_New by (rule chain_inv_exec)

lemma exec_append:
  "exec (as @ bs) s = (case exec as s of Inl p \<Rightarrow> Inl p | Inr s' \<Rightarrow> exec bs s')"
  by (induction as arbitrary: s) (auto split: sum.splits)

lemma step_tail_None: "tail_cell s = None \<Longrightarrow> step a s = Inr s' \<Longrightarrow> tail_cell s' = None"
  by (cases a)
     (auto simp: expand_def Terminate_clear_def Terminate_close_def Next_mark_def Head_Next_def
        Let_def split: if_splits option.splits)

lemma exec_tail_None: "tail_cell s = None \<Longrightarrow> exec as s = Inr s' \<Longrightarrow> tail_cell s' = None"
proof (induction as arbitrary: s)
  case Nil
  then show ?case by simp
next
  case (Cons a as)
  from Cons.prems(2) obtain s1 where s1: "step a s = Inr s1" and r: "exec as s1 = Inr s'"
    by (cases "step a s") auto
  from Cons.prems(1) s1 have "tail_cell s1 = None" by (rule step_tail_None)
  from this r show ?case by (rule Cons.IH)
qed

lemma step_Terminated: "Terminated s \<Longrightarrow> step a s = Inr s' \<Longrightarrow> Terminated s'"
  by (cases a)
     (auto simp: expand_def Terminate_clear_def Terminate_close_def Next_mark_def Head_Next_def
        Let_def split: if_splits option.splits)

lemma exec_Terminated: "Terminated s \<Longrightarrow> exec as s = Inr s' \<Longrightarrow> Terminated s'"
proof (induction as arbitrary: s)
  case Nil
  then show ?case by simp
next
  case (Cons a as)
  from Cons.prems(2) obtain s1 where s1: "step a s = Inr s1" and r: "exec as s1 = Inr s'"
    by (cases "step a s") auto
  from Cons.prems(1) s1 have "Terminated s1" by (rule step_Terminated)
  from this r show ?case by (rule Cons.IH)
qed

lemma Terminate_Inr: "Terminate s = Inr s' \<Longrightarrow> tail_cell s' = None \<and> Terminated s'"
  by (auto simp: Terminate_def Terminate_close_def Terminate_clear_def split: if_splits)

subsection \<open>The loop of the producer\<close>

lemma expand_tail_cell: "tail_cell s = Some c \<Longrightarrow> tail_cell (expand s c) = Some (length (heap s))"
  by (simp add: expand_def Let_def)

lemma WithCell_False_body:
  assumes IH: "\<And>s f r. W s f = Some r \<Longrightarrow> \<not> fst r \<longrightarrow> tail_cell s = None \<and> snd r = s"
    and body: "(case tail_cell s of
        None \<Rightarrow> Some (False, s)
      | Some cell \<Rightarrow>
          (case call f cell of
             (success, newFun) \<Rightarrow>
               if success then Some (True, s)
               else (case newFun of
                       None \<Rightarrow> W (expand s cell) f
                     | Some g \<Rightarrow> W s g))) = Some r"
  shows "\<not> fst r \<longrightarrow> tail_cell s = None \<and> snd r = s"
proof (cases "tail_cell s")
  case None
  with body show ?thesis by auto
next
  case (Some cell)
  obtain success newFun where c: "call f cell = (success, newFun)" by (cases "call f cell")
  show ?thesis
  proof (cases success)
    case True
    with body Some c show ?thesis by auto
  next
    case False
    show ?thesis
    proof (cases newFun)
      case None
      with body Some c False have "W (expand s cell) f = Some r" by simp
      from IH [OF this] expand_tail_cell [OF Some] show ?thesis by auto
    next
      case (Some g)
      with body \<open>tail_cell s = Some cell\<close> c False have "W s g = Some r" by simp
      from IH [OF this] \<open>tail_cell s = Some cell\<close> show ?thesis by auto
    qed
  qed
qed

lemma WithCell_False_aux:
  assumes "WithCell s f = Some r"
  shows "\<not> fst r \<longrightarrow> tail_cell s = None \<and> snd r = s"
  by (rule WithCell.raw_induct [where P = "\<lambda>s f r. \<not> fst r \<longrightarrow> tail_cell s = None \<and> snd r = s", OF _ assms])
     (rule WithCell_False_body)

lemma WithCell_terminated: "tail_cell s = None \<Longrightarrow> WithCell s f = Some (False, s)"
  by (subst WithCell.simps) simp

lemma WithCell_False_iff: "(WithCell s f = Some (False, s')) = (tail_cell s = None \<and> s' = s)"
  using WithCell_False_aux [of s f "(False, s')"] WithCell_terminated [of s f] by auto

lemma WithCell_among_False:
  "WithCell_among sch s f = Some (Inr (False, s')) \<Longrightarrow> tail_cell s' = None"
proof (induction sch s f rule: WithCell_among.induct)
  case (1 s f)
  then show ?case by simp
next
  case (2 others rest s f)
  from "2.prems" obtain s1 where s1: "exec others s = Inr s1"
    by (cases "exec others s") auto
  show ?case
  proof (cases "tail_cell s1")
    case None
    with "2.prems" s1 show ?thesis by simp
  next
    case (Some cell)
    obtain success newFun where c: "call f cell = (success, newFun)" by (cases "call f cell")
    show ?thesis
    proof (cases success)
      case True
      with "2.prems" s1 Some c show ?thesis by simp
    next
      case False
      show ?thesis
      proof (cases newFun)
        case None
        with "2.prems" s1 Some c False obtain others' rest' where r: "rest = others' # rest'"
          by (cases rest) auto
        with "2.prems" s1 Some c False None obtain s2 where s2: "exec others' s1 = Inr s2"
          by (cases "exec others' s1") auto
        with "2.prems" s1 Some c False None r
        have "WithCell_among rest' (expand s2 cell) f = Some (Inr (False, s'))" by simp
        with "2.IH"(1) [OF s1 Some c [symmetric] False None r s2] show ?thesis by simp
      next
        case (Some g)
        with "2.prems" s1 \<open>tail_cell s1 = Some cell\<close> c False
        have "WithCell_among rest s1 g = Some (Inr (False, s'))" by simp
        with "2.IH"(2) [OF s1 \<open>tail_cell s1 = Some cell\<close> c [symmetric] False Some]
        show ?thesis by simp
      qed
    qed
  qed
qed

lemma WithCell_among_terminated:
  "tail_cell s = None \<Longrightarrow> exec others s = Inr s1 \<Longrightarrow>
     WithCell_among (others # rest) s f = Some (Inr (False, s1))"
  using exec_tail_None [of s others s1] by simp

lemma WithCell_among_alone:
  "WithCell_among (replicate k []) s f = Some (Inr r) \<Longrightarrow> WithCell s f = Some r"
proof (induction k arbitrary: s f rule: less_induct)
  case (less k)
  from less.prems obtain k' where k: "k = Suc k'" by (cases k) auto
  show ?case
  proof (cases "tail_cell s")
    case None
    with less.prems k show ?thesis by (subst WithCell.simps) simp
  next
    case (Some cell)
    obtain success newFun where c: "call f cell = (success, newFun)" by (cases "call f cell")
    show ?thesis
    proof (cases success)
      case True
      with less.prems k Some c show ?thesis by (subst WithCell.simps) simp
    next
      case False
      show ?thesis
      proof (cases newFun)
        case None
        with less.prems k Some c False obtain k'' where k': "k' = Suc k''"
          by (cases k') auto
        with less.prems k Some c False None
        have "WithCell_among (replicate k'' []) (expand s cell) f = Some (Inr r)" by simp
        with less.IH [of k'' "expand s cell" f] k k'
        have "WithCell (expand s cell) f = Some r" by simp
        with Some c False None show ?thesis by (subst WithCell.simps) simp
      next
        case (Some g)
        with less.prems k \<open>tail_cell s = Some cell\<close> c False
        have "WithCell_among (replicate k' []) s g = Some (Inr r)" by simp
        with less.IH [of k' s g] k have "WithCell s g = Some r" by simp
        with \<open>tail_cell s = Some cell\<close> c False Some show ?thesis
          by (subst WithCell.simps) simp
      qed
    qed
  qed
qed

lemma WithCell_alone_body:
  assumes IH: "\<And>s f r. W s f = Some r \<Longrightarrow> \<exists>k. WithCell_among (replicate k []) s f = Some (Inr r)"
    and body: "(case tail_cell s of
        None \<Rightarrow> Some (False, s)
      | Some cell \<Rightarrow>
          (case call f cell of
             (success, newFun) \<Rightarrow>
               if success then Some (True, s)
               else (case newFun of
                       None \<Rightarrow> W (expand s cell) f
                     | Some g \<Rightarrow> W s g))) = Some r"
  shows "\<exists>k. WithCell_among (replicate k []) s f = Some (Inr r)"
proof (cases "tail_cell s")
  case None
  with body have "WithCell_among (replicate (Suc 0) []) s f = Some (Inr r)" by auto
  then show ?thesis ..
next
  case (Some cell)
  obtain success newFun where c: "call f cell = (success, newFun)" by (cases "call f cell")
  show ?thesis
  proof (cases success)
    case True
    with body Some c have "WithCell_among (replicate (Suc 0) []) s f = Some (Inr r)" by auto
    then show ?thesis ..
  next
    case False
    show ?thesis
    proof (cases newFun)
      case None
      with body Some c False have "W (expand s cell) f = Some r" by simp
      from IH [OF this] obtain k where
        "WithCell_among (replicate k []) (expand s cell) f = Some (Inr r)" ..
      with Some c False None
      have "WithCell_among (replicate (Suc (Suc k)) []) s f = Some (Inr r)" by simp
      then show ?thesis ..
    next
      case (Some g)
      with body \<open>tail_cell s = Some cell\<close> c False have "W s g = Some r" by simp
      from IH [OF this] obtain k where "WithCell_among (replicate k []) s g = Some (Inr r)" ..
      with \<open>tail_cell s = Some cell\<close> c False Some
      have "WithCell_among (replicate (Suc k) []) s f = Some (Inr r)" by simp
      then show ?thesis ..
    qed
  qed
qed

lemma WithCell_alone_among:
  assumes "WithCell s f = Some r"
  shows "\<exists>k. WithCell_among (replicate k []) s f = Some (Inr r)"
  by (rule WithCell.raw_induct
        [where P = "\<lambda>s f r. \<exists>k. WithCell_among (replicate k []) s f = Some (Inr r)", OF _ assms])
     (rule WithCell_alone_body)

subsection \<open>Advancing\<close>

lemma follow_links:
  "inv_links s \<Longrightarrow> c < length (heap s) \<Longrightarrow>
     follow (heap s) c k = (if c + k < length (heap s) then Some (c + k) else None)"
  by (induction k arbitrary: c) (auto simp: inv_links_def)

lemma Next_drained:
  assumes inv: "chain_inv s"
  shows "c < length (heap s) \<Longrightarrow> drained (heap s ! c) \<Longrightarrow>
     \<exists>d. Next s c = Some (Inr (d, s)) \<and> c < d \<and> d < length (heap s) \<and>
         \<not> drained (heap s ! d) \<and> (\<forall>e. c \<le> e \<and> e < d \<longrightarrow> drained (heap s ! e))"
proof (induction "length (heap s) - c" arbitrary: c)
  case 0
  then show ?case by simp
next
  case (Suc n)
  from inv Suc.prems have sc: "Suc c < length (heap s)"
    by (simp add: chain_inv_def inv_drained_def)
  with inv Suc.prems have nx: "nxt (heap s ! c) = Some (Suc c)"
    by (simp add: chain_inv_def inv_links_def)
  have mark: "Next_mark s c = Inr (Suc c, s)"
    using Suc.prems nx by (simp add: Next_mark_def cell_at_def)
  show ?case
  proof (cases "drained (heap s ! Suc c)")
    case False
    have "Next s c = Some (Inr (Suc c, s))"
      using mark sc False by (subst Next.simps) (simp add: cell_at_def)
    with sc False Suc.prems show ?thesis by (auto simp: le_Suc_eq less_Suc_eq)
  next
    case True
    have eq: "Next s c = Next s (Suc c)"
      using mark sc True by (subst Next.simps) (simp add: cell_at_def)
    from Suc.hyps(2) sc have "n = length (heap s) - Suc c" by simp
    from Suc.hyps(1) [OF this sc True] obtain d where
      d: "Next s (Suc c) = Some (Inr (d, s))" "Suc c < d" "d < length (heap s)"
         "\<not> drained (heap s ! d)" "\<forall>e. Suc c \<le> e \<and> e < d \<longrightarrow> drained (heap s ! e)"
      by blast
    have "\<forall>e. c \<le> e \<and> e < d \<longrightarrow> drained (heap s ! e)"
    proof (intro allI impI)
      fix e assume "c \<le> e \<and> e < d"
      then have "e = c \<or> (Suc c \<le> e \<and> e < d)" by arith
      with d(5) Suc.prems(2) show "drained (heap s ! e)" by blast
    qed
    with d eq show ?thesis by auto
  qed
qed

lemma first_undrained_unique:
  assumes "c < d" "\<not> drained (h ! d)" "\<forall>e. c \<le> e \<and> e < d \<longrightarrow> drained (h ! e)"
    and "c < d'" "\<not> drained (h ! d')" "\<forall>e. c \<le> e \<and> e < d' \<longrightarrow> drained (h ! e)"
  shows "d = (d'::nat)"
proof (rule ccontr)
  assume "d \<noteq> d'"
  then consider "d < d'" | "d' < d" by arith
  then show False
  proof cases
    case 1
    with assms(1,6) have "drained (h ! d)" by simp
    with assms(2) show False by simp
  next
    case 2
    with assms(4,3) have "drained (h ! d')" by simp
    with assms(5) show False by simp
  qed
qed

lemma Next_mark_inv:
  assumes inv: "chain_inv s" and c: "Suc c < length (heap s)"
  shows "Next_mark s c = Inr (Suc c, mark_drained s c)"
proof -
  from inv c have "nxt (heap s ! c) = Some (Suc c)"
    by (simp add: chain_inv_def inv_links_def)
  with c show ?thesis by (simp add: Next_mark_def cell_at_def mark_drained_def)
qed

lemma Next_mark_panics:
  assumes inv: "chain_inv s" and c: "\<not> Suc c < length (heap s)"
  shows "Next_mark s c = Inl NilDereference"
proof (cases "c < length (heap s)")
  case True
  with inv c have "nxt (heap s ! c) = None"
    by (simp add: chain_inv_def inv_links_def)
  with True show ?thesis by (simp add: Next_mark_def cell_at_def)
next
  case False
  then show ?thesis by (simp add: Next_mark_def cell_at_def)
qed

lemma Next_succeeds:
  assumes inv: "chain_inv s" and c: "Suc c < length (heap s)"
  shows "\<exists>d. Next s c = Some (Inr (d, mark_drained s c)) \<and> c < d \<and> d < length (heap s) \<and>
         \<not> drained (heap (mark_drained s c) ! d) \<and>
         (\<forall>e. c \<le> e \<and> e < d \<longrightarrow> drained (heap (mark_drained s c) ! e))"
proof -
  let ?s1 = "mark_drained s c"
  have mark: "Next_mark s c = Inr (Suc c, ?s1)" using inv c by (rule Next_mark_inv)
  with inv have inv1: "chain_inv ?s1" by (rule chain_inv_Next_mark)
  have len: "length (heap ?s1) = length (heap s)" by (simp add: mark_drained_def)
  have dr: "drained (heap ?s1 ! c)" using c by (simp add: mark_drained_def)
  have idem: "Next_mark ?s1 c = Inr (Suc c, ?s1)"
    using Next_mark_inv [OF inv1, of c] c len dr by (simp add: mark_drained_def)
  have "Next s c = Next ?s1 c"
    by (subst Next.simps, subst (2) Next.simps) (simp add: mark idem)
  moreover from Next_drained [OF inv1, of c] c len dr obtain d where
     "Next ?s1 c = Some (Inr (d, ?s1))" "c < d" "d < length (heap ?s1)"
     "\<not> drained (heap ?s1 ! d)" "\<forall>e. c \<le> e \<and> e < d \<longrightarrow> drained (heap ?s1 ! e)"
    by auto
  ultimately show ?thesis using len by auto
qed

subsection \<open>Calls of Open\<close>

lemma inv_Open_New: "inv_Open_cell NewChanCellTail" "inv_Open_head NewChanCellTail"
  by (auto simp: inv_Open_cell_def inv_Open_head_def NewChanCellTail_def new_ChanCell_def)

lemma expand_Open_count: "count_list (calls (expand s c)) (Open d) = count_list (calls s) (Open d)"
  by (simp add: expand_def Let_def)

lemma drained_upd_nxt: "drained ((xs[r := (xs ! r)\<lparr>nxt := v\<rparr>]) ! c) = drained (xs ! c)"
proof (cases "r < length xs")
  case True
  then show ?thesis by (cases "c = r") simp_all
next
  case False
  then have "xs[r := (xs ! r)\<lparr>nxt := v\<rparr>] = xs" by (simp add: list_update_beyond)
  then show ?thesis by simp
qed

lemma expand_drained_iff:
  assumes "inv_links s" "inv_tail s"
  shows "(\<exists>c < length (heap (expand s r)). d = Suc c \<and> drained (heap (expand s r) ! c))
       = (\<exists>c < length (heap s). d = Suc c \<and> drained (heap s ! c))"
proof (cases "tail_cell s = Some r")
  case False
  then show ?thesis by (simp add: expand_def)
next
  case True
  have "\<And>c. c < Suc (length (heap s)) \<and> drained (heap (expand s r) ! c)
            \<longleftrightarrow> c < length (heap s) \<and> drained (heap s ! c)"
    using True by (auto simp: expand_def Let_def nth_append drained_upd_nxt new_ChanCell_def less_Suc_eq)
  moreover have "length (heap (expand s r)) = Suc (length (heap s))"
    using True by (simp add: expand_def Let_def)
  ultimately show ?thesis by auto
qed

lemma cell_step_Open:
  assumes inv: "chain_inv s" and o: "inv_Open_cell s" and a: "of_cell_revision a"
    and st: "step a s = Inr s'"
  shows "inv_Open_cell s'"
proof (cases a)
  case (Do_expand r)
  with st have s': "s' = expand s r" by simp
  from inv have "inv_links s" "inv_tail s" by (simp_all add: chain_inv_def)
  from expand_drained_iff [OF this] o show ?thesis
    unfolding inv_Open_cell_def s' expand_Open_count by simp
next
  case Do_Terminate_clear
  with st o show ?thesis by (auto simp: inv_Open_cell_def Terminate_clear_def)
next
  case Do_Terminate_close
  with st have "s' = s\<lparr>Terminated := True\<rparr>"
    by (simp add: Terminate_close_def split: if_splits)
  with o show ?thesis by (simp add: inv_Open_cell_def)
next
  case (Do_Next c)
  with st obtain d where m: "Next_mark s c = Inr (d, s')"
    by (cases "Next_mark s c") auto
  have sc: "Suc c < length (heap s)"
    using Next_mark_panics [OF inv, of c] m by auto
  from Next_mark_inv [OF inv sc] m have s': "s' = mark_drained s c" by simp
  show ?thesis
  proof (cases "drained (heap s ! c)")
    case True
    with s' o show ?thesis by (simp add: mark_drained_def)
  next
    case False
    have c: "c < length (heap s)" using sc by simp
    have "\<And>d. (\<exists>e < length (heap s). d = Suc e \<and> drained ((heap s)[c := (heap s ! c)\<lparr>drained := True\<rparr>] ! e))
         \<longleftrightarrow> d = Suc c \<or> (\<exists>e < length (heap s). d = Suc e \<and> drained (heap s ! e))"
      using c False by (auto simp: nth_list_update)
    moreover have "\<not> (\<exists>e < length (heap s). Suc c = Suc e \<and> drained (heap s ! e))"
      using False by simp
    ultimately show ?thesis using o False s'
      unfolding inv_Open_cell_def mark_drained_def by auto
  qed
next
  case (Do_Head_Next x5)
  with a show ?thesis by simp
qed

lemma head_step_Open:
  assumes inv: "chain_inv s" and o: "inv_Open_head s" and a: "of_head_revision a"
    and st: "step a s = Inr s'"
  shows "inv_Open_head s'"
proof (cases a)
  case (Do_expand r)
  with st have s': "s' = expand s r" by simp
  have "head_cell (expand s r) = head_cell s" by (simp add: expand_def Let_def)
  with o show ?thesis
    unfolding inv_Open_head_def s' expand_Open_count by simp
next
  case Do_Terminate_clear
  with st o show ?thesis by (auto simp: inv_Open_head_def Terminate_clear_def)
next
  case Do_Terminate_close
  with st have "s' = s\<lparr>Terminated := True\<rparr>"
    by (simp add: Terminate_close_def split: if_splits)
  with o show ?thesis by (simp add: inv_Open_head_def)
next
  case (Do_Next c)
  with a show ?thesis by simp
next
  case (Do_Head_Next c)
  with st obtain r where m: "Head_Next s c = Inr (r, s')"
    by (cases "Head_Next s c") auto
  show ?thesis
  proof (cases "head_cell s = Some c")
    case False
    with Head_Next_Inr [OF m] o show ?thesis by simp
  next
    case True
    with Head_Next_Inr [OF m] obtain d where c: "c < length (heap s)"
      and n: "nxt (heap s ! c) = Some d"
      and s': "s' = s\<lparr>head_cell := Some d, calls := calls s @ [Open d]\<rparr>"
      by auto
    from inv n c have d: "d = Suc c"
      by (auto simp: chain_inv_def inv_links_def split: if_splits)
    show ?thesis using o True unfolding inv_Open_head_def s' d
      by (auto simp: le_Suc_eq)
  qed
qed

section \<open>The claims\<close>

text \<open>
  C10. \<^verbatim>\<open>Terminate\<close> is not idempotent: once a call has returned, every later call, whatever
  ran in between, panics on closing the closed channel, although setting the tail to
  \<^verbatim>\<open>nil\<close> again changes nothing.
\<close>

theorem C10_second_Terminate_panics:
  assumes "Terminate s = Inr s1" and "exec acts s1 = Inr s2"
  shows "Terminate s2 = Inl CloseOfClosedChannel \<and> Terminate_clear s2 = s2"
proof -
  from assms(1) have "tail_cell s1 = None" "Terminated s1"
    using Terminate_Inr by blast+
  with assms(2) have "tail_cell s2 = None" "Terminated s2"
    using exec_tail_None exec_Terminated by blast+
  then show ?thesis
    by (simp add: Terminate_def Terminate_close_def Terminate_clear_def)
qed

theorem C10_witness:
  "Terminate NewChanCellTail = Inr (NewChanCellTail\<lparr>tail_cell := None, Terminated := True\<rparr>) \<and>
   exec [Do_expand 0] (NewChanCellTail\<lparr>tail_cell := None, Terminated := True\<rparr>)
     = Inr (NewChanCellTail\<lparr>tail_cell := None, Terminated := True\<rparr>) \<and>
   Terminate (NewChanCellTail\<lparr>tail_cell := None, Terminated := True\<rparr>) = Inl CloseOfClosedChannel \<and>
   Terminate_clear (NewChanCellTail\<lparr>tail_cell := None, Terminated := True\<rparr>)
     = NewChanCellTail\<lparr>tail_cell := None, Terminated := True\<rparr>"
proof -
  let ?t = "NewChanCellTail\<lparr>tail_cell := None, Terminated := True\<rparr>"
  have h1: "Terminate NewChanCellTail = Inr ?t"
    by (simp add: Terminate_def Terminate_close_def Terminate_clear_def NewChanCellTail_def)
  have h2: "exec [Do_expand 0] ?t = Inr ?t"
    by (simp add: expand_def)
  from C10_second_Terminate_panics [OF h1 h2] h1 h2 show ?thesis by simp
qed

text \<open>
  C1. \<^verbatim>\<open>WithCell\<close> returns false exactly when the tail is \<^verbatim>\<open>nil\<close> at the moment of an
  attempt. Run alone, a call returns false if and only if the tail is \<^verbatim>\<open>nil\<close> when it
  starts, and then it changes nothing. Run among others, a call that returns false found
  the tail \<^verbatim>\<open>nil\<close> in the state it returns, and a call that finds the tail \<^verbatim>\<open>nil\<close> at an
  attempt returns false there. Once \<^verbatim>\<open>Terminate\<close> has returned, whatever runs afterwards,
  every call returns false, alone or among others.
\<close>

theorem C1_WithCell_false_iff_terminated:
  shows "((WithCell s f = Some (False, s')) = (tail_cell s = None \<and> s' = s)) \<and>
         (WithCell_among sch s f = Some (Inr (False, s')) \<longrightarrow> tail_cell s' = None) \<and>
         (exec others s = Inr s1 \<longrightarrow> tail_cell s1 = None \<longrightarrow>
            WithCell_among (others # rest) s f = Some (Inr (False, s1))) \<and>
         (Terminate s0 = Inr t \<longrightarrow> exec acts t = Inr u \<longrightarrow>
            WithCell u f = Some (False, u) \<and>
            (exec others u = Inr u1 \<longrightarrow>
               WithCell_among (others # rest) u f = Some (Inr (False, u1))))"
proof (intro conjI impI)
  show "(WithCell s f = Some (False, s')) = (tail_cell s = None \<and> s' = s)"
    by (rule WithCell_False_iff)
next
  assume "WithCell_among sch s f = Some (Inr (False, s'))"
  then show "tail_cell s' = None" by (rule WithCell_among_False)
next
  assume "exec others s = Inr s1" "tail_cell s1 = None"
  then show "WithCell_among (others # rest) s f = Some (Inr (False, s1))" by simp
next
  assume "Terminate s0 = Inr t" "exec acts t = Inr u"
  then have "tail_cell u = None" using Terminate_Inr exec_tail_None by blast
  then show "WithCell u f = Some (False, u)" by (rule WithCell_terminated)
next
  assume "Terminate s0 = Inr t" "exec acts t = Inr u" "exec others u = Inr u1"
  then have "tail_cell u = None" using Terminate_Inr exec_tail_None by blast
  from this \<open>exec others u = Inr u1\<close>
  show "WithCell_among (others # rest) u f = Some (Inr (False, u1))"
    by (rule WithCell_among_terminated)
qed

theorem C1_witness:
  "WithCell (NewChanCellTail\<lparr>tail_cell := None, Terminated := True\<rparr>) succeeds
     = Some (False, NewChanCellTail\<lparr>tail_cell := None, Terminated := True\<rparr>) \<and>
   tail_cell (NewChanCellTail\<lparr>tail_cell := None, Terminated := True\<rparr>) = None \<and>
   WithCell_among [[], [Do_Terminate_clear, Do_Terminate_close]] NewChanCellTail retry_once
     = Some (Inr (False, NewChanCellTail\<lparr>tail_cell := None, Terminated := True\<rparr>)) \<and>
   exec [Do_Terminate_clear] NewChanCellTail = Inr (NewChanCellTail\<lparr>tail_cell := None\<rparr>) \<and>
   tail_cell (NewChanCellTail\<lparr>tail_cell := None\<rparr>) = None \<and>
   WithCell_among [[Do_Terminate_clear]] NewChanCellTail succeeds
     = Some (Inr (False, NewChanCellTail\<lparr>tail_cell := None\<rparr>)) \<and>
   Terminate NewChanCellTail = Inr (NewChanCellTail\<lparr>tail_cell := None, Terminated := True\<rparr>) \<and>
   exec [Do_expand 0] (NewChanCellTail\<lparr>tail_cell := None, Terminated := True\<rparr>)
     = Inr (NewChanCellTail\<lparr>tail_cell := None, Terminated := True\<rparr>) \<and>
   WithCell_among [[Do_expand 0]] (NewChanCellTail\<lparr>tail_cell := None, Terminated := True\<rparr>) succeeds
     = Some (Inr (False, NewChanCellTail\<lparr>tail_cell := None, Terminated := True\<rparr>))"
proof -
  let ?t = "NewChanCellTail\<lparr>tail_cell := None, Terminated := True\<rparr>"
  let ?c = "NewChanCellTail\<lparr>tail_cell := None\<rparr>"
  have n: "tail_cell ?t = None" by simp
  have a: "WithCell_among [[], [Do_Terminate_clear, Do_Terminate_close]] NewChanCellTail retry_once
     = Some (Inr (False, ?t))"
    by (simp add: NewChanCellTail_def retry_once_def Terminate_clear_def Terminate_close_def)
  have e: "exec [Do_Terminate_clear] NewChanCellTail = Inr ?c"
    by (simp add: Terminate_clear_def)
  have h1: "Terminate NewChanCellTail = Inr ?t"
    by (simp add: Terminate_def Terminate_close_def Terminate_clear_def NewChanCellTail_def)
  have h2: "exec [Do_expand 0] ?t = Inr ?t"
    by (simp add: expand_def)
  note A = C1_WithCell_false_iff_terminated
    [where s = ?t and f = succeeds and s' = ?t and ?s0.0 = NewChanCellTail and t = ?t
       and acts = "[Do_expand 0]" and u = ?t and others = "[Do_expand 0]" and ?u1.0 = ?t
       and rest = "[]"]
  note B = C1_WithCell_false_iff_terminated
    [where s = NewChanCellTail and f = retry_once and s' = ?t
       and sch = "[[], [Do_Terminate_clear, Do_Terminate_close]]"]
  note C = C1_WithCell_false_iff_terminated
    [where s = NewChanCellTail and f = succeeds and others = "[Do_Terminate_clear]"
       and ?s1.0 = ?c and rest = "[]"]
  from A n h1 h2 have w: "WithCell ?t succeeds = Some (False, ?t)"
    and g: "WithCell_among [[Do_expand 0]] ?t succeeds = Some (Inr (False, ?t))" by simp_all
  from B a have "tail_cell ?t = None" by simp
  from C e have g2: "WithCell_among [[Do_Terminate_clear]] NewChanCellTail succeeds
     = Some (Inr (False, ?c))" by simp
  from w n a e g2 h1 h2 g show ?thesis by simp
qed

lemma step_length: "step a s = Inr s' \<Longrightarrow> length (heap s) \<le> length (heap s')"
  by (cases a)
     (auto simp: expand_def Terminate_clear_def Terminate_close_def Next_mark_def Head_Next_def
        Let_def split: if_splits option.splits)

lemma exec_length: "exec as s = Inr s' \<Longrightarrow> length (heap s) \<le> length (heap s')"
proof (induction as arbitrary: s)
  case Nil
  then show ?case by simp
next
  case (Cons a as)
  from Cons.prems obtain s1 where s1: "step a s = Inr s1" and r: "exec as s1 = Inr s'"
    by (cases "step a s") auto
  from step_length [OF s1] Cons.IH [OF r] show ?case by simp
qed

lemma expand_noop: "tail_cell s \<noteq> Some read \<Longrightarrow> expand s read = s"
  by (simp add: expand_def)

lemma expand_grows:
  "tail_cell s = Some read \<Longrightarrow>
     expand s read =
       s\<lparr>heap := (heap s)[read := (heap s ! read)\<lparr>nxt := Some (length (heap s))\<rparr>] @ [new_ChanCell],
         tail_n := tail_n s * 2,
         tail_cell := Some (length (heap s)),
         calls := calls s @ [Init (tail_n s * 2) (length (heap s)), Close read]\<rparr>"
  by (simp add: expand_def Let_def)

lemma expand_later_noop:
  assumes inv: "chain_inv s" and t: "tail_cell s = Some read"
    and ex: "exec acts (expand s read) = Inr u"
  shows "expand u read = u \<and> nxt (heap u ! read) = Some (length (heap s))"
proof -
  from inv t have r: "read = length (heap s) - 1" and ne: "heap s \<noteq> []"
    by (auto simp: chain_inv_def inv_tail_def inv_links_def)
  have inv1: "chain_inv (expand s read)" using inv by (rule chain_inv_expand)
  from inv1 ex have invu: "chain_inv u" by (rule chain_inv_exec)
  have "length (heap (expand s read)) = Suc (length (heap s))"
    using t by (simp add: expand_grows)
  with exec_length [OF ex] have len: "Suc (length (heap s)) \<le> length (heap u)" by simp
  from invu have "tail_cell u = None \<or> tail_cell u = Some (length (heap u) - 1)"
    by (simp add: chain_inv_def inv_tail_def)
  with len r ne have "tail_cell u \<noteq> Some read" by (cases "heap s") auto
  then have "expand u read = u" by (rule expand_noop)
  moreover from invu len r ne have "nxt (heap u ! read) = Some (Suc read)"
    by (cases "heap s") (auto simp: chain_inv_def inv_links_def)
  moreover from r ne have "Suc read = length (heap s)" by (cases "heap s") auto
  ultimately show ?thesis by simp
qed

text \<open>
  C4. \<^verbatim>\<open>expand(read)\<close> checks that the tail still points at \<^verbatim>\<open>read\<close>. When it does not,
  nothing changes. When it does, one cell is allocated, \<^verbatim>\<open>n\<close> is doubled, the new cell
  is initialised with the new \<^verbatim>\<open>n\<close>, \<^verbatim>\<open>read.next\<close> is the new cell, the tail points at the
  new cell and \<^verbatim>\<open>read.Close()\<close> is called; nothing else changes. Hence after one growth
  of a cell every later \<^verbatim>\<open>expand\<close> for the same cell, whatever ran in between, changes
  nothing, and the successor of the cell stays the one cell that growth allocated.
\<close>

theorem C4_expand_checks_then_grows_once:
  shows "(tail_cell s \<noteq> Some read \<longrightarrow> expand s read = s) \<and>
         (tail_cell s = Some read \<longrightarrow>
            expand s read =
              s\<lparr>heap := (heap s)[read := (heap s ! read)\<lparr>nxt := Some (length (heap s))\<rparr>]
                          @ [new_ChanCell],
                tail_n := tail_n s * 2,
                tail_cell := Some (length (heap s)),
                calls := calls s @ [Init (tail_n s * 2) (length (heap s)), Close read]\<rparr> \<and>
            length (heap (expand s read)) = Suc (length (heap s))) \<and>
         (exec acts0 NewChanCellTail = Inr s \<longrightarrow> tail_cell s = Some read \<longrightarrow>
            exec acts (expand s read) = Inr u \<longrightarrow>
            expand u read = u \<and> nxt (heap u ! read) = Some (length (heap s)))"
proof (intro conjI impI)
  assume "tail_cell s \<noteq> Some read"
  then show "expand s read = s" by (rule expand_noop)
next
  assume t: "tail_cell s = Some read"
  then show "expand s read =
              s\<lparr>heap := (heap s)[read := (heap s ! read)\<lparr>nxt := Some (length (heap s))\<rparr>]
                          @ [new_ChanCell],
                tail_n := tail_n s * 2,
                tail_cell := Some (length (heap s)),
                calls := calls s @ [Init (tail_n s * 2) (length (heap s)), Close read]\<rparr>"
    by (rule expand_grows)
  from t show "length (heap (expand s read)) = Suc (length (heap s))"
    by (simp add: expand_grows)
next
  assume r: "exec acts0 NewChanCellTail = Inr s" and t: "tail_cell s = Some read"
    and ex: "exec acts (expand s read) = Inr u"
  from r have "chain_inv s" by (rule reachable_inv)
  from expand_later_noop [OF this t ex]
  show "expand u read = u" "nxt (heap u ! read) = Some (length (heap s))" by simp_all
qed

theorem C4_witness:
  "tail_cell (expand NewChanCellTail 0) \<noteq> Some 0 \<and>
   expand (expand NewChanCellTail 0) 0 = expand NewChanCellTail 0 \<and>
   tail_cell NewChanCellTail = Some 0 \<and>
   expand NewChanCellTail 0 =
     \<lparr>heap = [\<lparr>nxt = Some 1, drained = False\<rparr>, \<lparr>nxt = None, drained = False\<rparr>],
      head_cell = Some 0, tail_cell = Some 1, tail_n = 32, Terminated = False,
      calls = [Init 16 0, Open 0, Init 32 1, Close 0]\<rparr> \<and>
   length (heap (expand NewChanCellTail 0)) = 2 \<and>
   exec [] NewChanCellTail = Inr NewChanCellTail \<and>
   exec [Do_expand 0, Do_expand 1, Do_expand 0] (expand NewChanCellTail 0)
     = Inr (expand (expand NewChanCellTail 0) 1) \<and>
   expand (expand (expand NewChanCellTail 0) 1) 0 = expand (expand NewChanCellTail 0) 1 \<and>
   nxt (heap (expand (expand NewChanCellTail 0) 1) ! 0) = Some 1"
proof -
  let ?s1 = "expand NewChanCellTail 0"
  let ?s2 = "expand ?s1 1"
  have v: "?s1 = \<lparr>heap = [\<lparr>nxt = Some 1, drained = False\<rparr>, \<lparr>nxt = None, drained = False\<rparr>],
      head_cell = Some 0, tail_cell = Some 1, tail_n = 32, Terminated = False,
      calls = [Init 16 0, Open 0, Init 32 1, Close 0]\<rparr>"
    by (simp add: expand_def NewChanCellTail_def new_ChanCell_def DefaultChanLength_def Let_def)
  have t0: "tail_cell NewChanCellTail = Some 0" by (simp add: NewChanCellTail_def)
  have t1: "tail_cell ?s1 \<noteq> Some 0" by (simp add: v)
  have t2: "tail_cell ?s2 \<noteq> Some 0 \<and> tail_cell ?s2 \<noteq> Some 1"
    by (simp add: expand_def Let_def NewChanCellTail_def)
  have e0: "exec [] NewChanCellTail = Inr NewChanCellTail" by simp
  have e1: "exec [Do_expand 0, Do_expand 1, Do_expand 0] ?s1 = Inr ?s2"
    using t1 t2 by (simp add: expand_noop)
  note A = C4_expand_checks_then_grows_once
    [where s = ?s1 and read = 0]
  note B = C4_expand_checks_then_grows_once
    [where s = NewChanCellTail and read = 0 and ?acts0.0 = "[]"
       and acts = "[Do_expand 0, Do_expand 1, Do_expand 0]" and u = ?s2]
  from A t1 have a: "expand ?s1 0 = ?s1" by blast
  from B t0 have l: "length (heap ?s1) = Suc (length (heap NewChanCellTail))" by blast
  from B t0 e0 e1 have b: "expand ?s2 0 = ?s2 \<and> nxt (heap ?s2 ! 0) = Some (length (heap NewChanCellTail))"
    by blast
  have n: "length (heap NewChanCellTail) = 1" by (simp add: NewChanCellTail_def)
  from t1 a t0 v l b n e0 e1 show ?thesis by (simp del: exec.simps)
qed

lemma sint_pow2:
  assumes "m < 63"
  shows "sint (2 ^ m :: 64 word) = 2 ^ m"
proof -
  have "(2 ^ m :: 64 word) = word_of_int (2 ^ m)" by (simp add: word_of_int_2p)
  then have "sint (2 ^ m :: 64 word) = signed_take_bit 63 (2 ^ m :: int)"
    by (simp only: sint_sbintrunc') simp
  also have "\<dots> = 2 ^ m"
  proof (rule signed_take_bit_int_eq_self)
    have "(0::int) \<le> 2 ^ m" by simp
    moreover have "- (2 ^ 63) \<le> (0::int)" by simp
    ultimately show "- (2 ^ 63) \<le> (2 ^ m :: int)" by (rule order_trans [rotated])
    show "(2 ^ m :: int) < 2 ^ 63" using assms by (intro power_strict_increasing) simp_all
  qed
  finally show ?thesis .
qed

lemma sint_capacity:
  assumes "a \<le> 58"
  shows "sint (DefaultChanLength * 2 ^ a) = 16 * 2 ^ a"
proof -
  have "DefaultChanLength * 2 ^ a = (2 ^ (a + 4) :: 64 word)"
    by (simp add: DefaultChanLength_def power_add)
  moreover have "sint (2 ^ (a + 4) :: 64 word) = 2 ^ (a + 4)"
    using assms by (intro sint_pow2) simp
  moreover have "(2 ^ (a + 4) :: int) = 16 * 2 ^ a" by (simp add: power_add)
  ultimately show ?thesis by simp
qed

lemma exec_expands: "exec (map Do_expand cs) s = Inr (fold (\<lambda>c s. expand s c) cs s)"
  by (induction cs arbitrary: s) simp_all

lemma grow_length:
  "length (heap (fold (\<lambda>c s. expand s c) [0..<k] NewChanCellTail)) = Suc k \<and>
   tail_cell (fold (\<lambda>c s. expand s c) [0..<k] NewChanCellTail) = Some k"
proof (induction k)
  case 0
  show ?case by (simp add: NewChanCellTail_def)
next
  case (Suc k)
  then show ?case by (simp add: expand_grows)
qed


lemma Init_in_calls:
  assumes "chain_inv s"
  shows "Init n a \<in> set (calls s) \<longleftrightarrow> a < length (heap s) \<and> n = DefaultChanLength * 2 ^ a"
proof -
  from assms have "count_list (calls s) (Init n a) =
      (if a < length (heap s) \<and> n = DefaultChanLength * 2 ^ a then 1 else 0)"
    by (simp add: chain_inv_def inv_Init_def)
  then have "(count_list (calls s) (Init n a) = 0) = (\<not> (a < length (heap s) \<and> n = DefaultChanLength * 2 ^ a))"
    by simp
  then show ?thesis by (simp only: count_list_0_iff) blast
qed

text \<open>
  C3, as the code has it. The first cell is initialised with the default length 16, and
  every growth initialises the new cell with twice the length of the cell before it,
  computed in 64 bits: the cell of rank \<open>a\<close>, counted from 0, is initialised exactly once,
  with \<open>16 * 2 ^ a\<close> modulo \<open>2 ^ 64\<close>. Read as a signed integer this is \<open>16 * 2 ^ a\<close> for
  the first 59 cells (\<open>a \<le> 58\<close>).
\<close>

theorem C3_capacity_doubles_in_64_bits:
  assumes "exec acts NewChanCellTail = Inr s"
  shows "(a < length (heap s) \<longrightarrow>
            count_list (calls s) (Init (DefaultChanLength * 2 ^ a) a) = 1) \<and>
         (Init n a \<in> set (calls s) \<longrightarrow>
            a < length (heap s) \<and> n = DefaultChanLength * 2 ^ a \<and>
            (a \<le> 58 \<longrightarrow> sint n = 16 * 2 ^ a)) \<and>
         (Init n a \<in> set (calls s) \<longrightarrow> Init m (Suc a) \<in> set (calls s) \<longrightarrow> m = n * 2) \<and>
         (Init n 0 \<in> set (calls s) \<longrightarrow> n = 16)"
proof -
  from assms have inv: "chain_inv s" by (rule reachable_inv)
  have 1: "a < length (heap s) \<longrightarrow> count_list (calls s) (Init (DefaultChanLength * 2 ^ a) a) = 1"
    using inv by (simp add: chain_inv_def inv_Init_def)
  have 2: "Init n a \<in> set (calls s) \<longrightarrow>
            a < length (heap s) \<and> n = DefaultChanLength * 2 ^ a \<and>
            (a \<le> 58 \<longrightarrow> sint n = 16 * 2 ^ a)"
  proof
    assume "Init n a \<in> set (calls s)"
    then have *: "a < length (heap s)" "n = DefaultChanLength * 2 ^ a"
      by (simp_all add: Init_in_calls [OF inv])
    from *(2) have "a \<le> 58 \<longrightarrow> sint n = 16 * 2 ^ a" by (simp add: sint_capacity)
    with * show "a < length (heap s) \<and> n = DefaultChanLength * 2 ^ a \<and>
            (a \<le> 58 \<longrightarrow> sint n = 16 * 2 ^ a)" by (intro conjI)
  qed
  have 3: "Init n a \<in> set (calls s) \<longrightarrow> Init m (Suc a) \<in> set (calls s) \<longrightarrow> m = n * 2"
    by (simp add: Init_in_calls [OF inv])
  have 4: "Init n 0 \<in> set (calls s) \<longrightarrow> n = 16"
    by (simp add: Init_in_calls [OF inv] DefaultChanLength_def)
  from 1 2 3 4 show ?thesis by (intro conjI)
qed

theorem C3_witness:
  "exec [Do_expand 0] NewChanCellTail = Inr (expand NewChanCellTail 0) \<and>
   1 < length (heap (expand NewChanCellTail 0)) \<and>
   count_list (calls (expand NewChanCellTail 0)) (Init 32 1) = 1 \<and>
   Init 16 0 \<in> set (calls (expand NewChanCellTail 0)) \<and>
   Init 32 1 \<in> set (calls (expand NewChanCellTail 0)) \<and>
   (0::nat) \<le> 58 \<and> sint (16 :: 64 word) = 16 * 2 ^ 0 \<and> (32 :: 64 word) = 16 * 2"
proof -
  let ?s = "expand NewChanCellTail 0"
  have e: "exec [Do_expand 0] NewChanCellTail = Inr ?s" by simp
  have c: "calls ?s = [Init 16 0, Open 0, Init 32 1, Close 0]"
    by (simp add: expand_def NewChanCellTail_def DefaultChanLength_def Let_def)
  have l: "1 < length (heap ?s)" by (simp add: expand_def NewChanCellTail_def Let_def)
  have i0: "Init 16 0 \<in> set (calls ?s)" and i1: "Init 32 1 \<in> set (calls ?s)"
    by (simp_all add: c)
  have d: "DefaultChanLength * 2 ^ 1 = (32 :: 64 word)" by (simp add: DefaultChanLength_def)
  note A = C3_capacity_doubles_in_64_bits [OF e, where a = 1]
  note B = C3_capacity_doubles_in_64_bits [OF e, where a = 0 and n = 16 and m = 32]
  from A [THEN conjunct1, rule_format, OF l] d
  have w1: "count_list (calls ?s) (Init 32 1) = 1" by simp
  have z: "(0::nat) \<le> 58" by simp
  note B2 = B [THEN conjunct2, THEN conjunct1, rule_format, OF i0]
  from B2 [THEN conjunct2, THEN conjunct2, rule_format, OF z]
  have w2: "sint (16 :: 64 word) = 16 * 2 ^ 0" .
  have i1': "Init 32 (Suc 0) \<in> set (calls ?s)" using i1 by simp
  from B [THEN conjunct2, THEN conjunct2, THEN conjunct1, rule_format, OF i0 i1']
  have w3: "(32 :: 64 word) = 16 * 2" .
  show ?thesis using e l w1 i0 i1 z w2 w3 by (intro conjI)
qed



text \<open>
  C3 as stated fails at the 60th cell: after 59 growths the cell of rank 59 has been
  initialised with \<open>- 2 ^ 63\<close>, not with \<open>16 * 2 ^ 59\<close>.
\<close>

theorem C3_counterexample:
  "\<not> isl (exec (map Do_expand [0..<59]) NewChanCellTail) \<and>
   Init (- 9223372036854775808) 59
     \<in> set (calls (projr (exec (map Do_expand [0..<59]) NewChanCellTail))) \<and>
   sint (- 9223372036854775808 :: 64 word) \<noteq> 16 * 2 ^ 59"
proof -
  let ?s = "fold (\<lambda>c s. expand s c) [0..<59] NewChanCellTail"
  have e: "exec (map Do_expand [0..<59]) NewChanCellTail = Inr ?s" by (rule exec_expands)
  then have inv: "chain_inv ?s" by (rule reachable_inv)
  have "length (heap ?s) = Suc 59" using grow_length [of 59] by (rule conjunct1)
  then have lt: "59 < length (heap ?s)" by (simp only: lessI)
  from Init_in_calls [OF inv, of "DefaultChanLength * 2 ^ 59" 59, THEN iffD2, OF conjI, OF lt refl]
  have "Init (DefaultChanLength * 2 ^ 59) 59 \<in> set (calls ?s)" .
  moreover have "DefaultChanLength * 2 ^ 59 = (- 9223372036854775808 :: 64 word)"
    by (simp add: DefaultChanLength_def)
  ultimately have m: "Init (- 9223372036854775808) 59 \<in> set (calls ?s)" by (simp only:)
  have n: "sint (- 9223372036854775808 :: 64 word) \<noteq> 16 * 2 ^ 59" by simp
  have p: "projr (exec (map Do_expand [0..<59]) NewChanCellTail) = ?s"
    by (simp only: e sum.sel)
  have q: "\<not> isl (exec (map Do_expand [0..<59]) NewChanCellTail)"
    by (simp only: e sum.disc not_False_eq_True)
  from m have m': "Init (- 9223372036854775808) 59
     \<in> set (calls (projr (exec (map Do_expand [0..<59]) NewChanCellTail)))"
    by (simp only: p)
  from q m' n show ?thesis by (intro conjI)
qed

lemma step_Close_count:
  "step a s = Inr s' \<Longrightarrow>
     count_list (calls s') (Close c) =
       count_list (calls s) (Close c) + (if a = Do_expand c \<and> tail_cell s = Some c then 1 else 0)"
  by (cases a)
     (auto simp: expand_def Terminate_clear_def Terminate_close_def Next_mark_def Head_Next_def
        Head_WithCell_def Let_def split: if_splits option.splits)

text \<open>
  C8, as the code has it. \<^verbatim>\<open>Close()\<close> of a cell is called by the growth that replaces
  the cell, and by nothing else: a cell with a successor has been closed exactly once, the
  last cell of the chain not at all. \<^verbatim>\<open>Terminate\<close> calls no \<^verbatim>\<open>Close()\<close>, so the cell that
  is current when \<^verbatim>\<open>Terminate\<close> cuts the writes off is never closed.
\<close>

theorem C8_Close_once_by_growth_only:
  assumes "exec acts NewChanCellTail = Inr s"
  shows "count_list (calls s) (Close c) = (if Suc c < length (heap s) then 1 else 0) \<and>
         (step a s = Inr s' \<longrightarrow>
            count_list (calls s') (Close c) =
              count_list (calls s) (Close c) +
                (if a = Do_expand c \<and> tail_cell s = Some c then 1 else 0)) \<and>
         (tail_cell s = Some c \<longrightarrow> count_list (calls s) (Close c) = 0) \<and>
         (Terminate s = Inr t \<longrightarrow> calls t = calls s)"
proof -
  from assms have inv: "chain_inv s" by (rule reachable_inv)
  have 1: "count_list (calls s) (Close c) = (if Suc c < length (heap s) then 1 else 0)"
    using inv by (simp add: chain_inv_def inv_Close_def)
  have 2: "step a s = Inr s' \<longrightarrow>
            count_list (calls s') (Close c) =
              count_list (calls s) (Close c) +
                (if a = Do_expand c \<and> tail_cell s = Some c then 1 else 0)"
    using step_Close_count by (rule impI)
  have 3: "tail_cell s = Some c \<longrightarrow> count_list (calls s) (Close c) = 0"
  proof
    assume "tail_cell s = Some c"
    with inv have "c = length (heap s) - 1" by (simp add: chain_inv_def inv_tail_def)
    then have "\<not> Suc c < length (heap s)" by simp
    with 1 show "count_list (calls s) (Close c) = 0" by simp
  qed
  have 4: "Terminate s = Inr t \<longrightarrow> calls t = calls s"
    by (auto simp: Terminate_def Terminate_close_def Terminate_clear_def split: if_splits)
  from 1 2 3 4 show ?thesis by (intro conjI)
qed

theorem C8_witness:
  "exec [Do_expand 0] NewChanCellTail = Inr (expand NewChanCellTail 0) \<and>
   count_list (calls (expand NewChanCellTail 0)) (Close 0) = 1 \<and>
   count_list (calls (expand NewChanCellTail 0)) (Close 1) = 0 \<and>
   tail_cell (expand NewChanCellTail 0) = Some 1 \<and>
   step (Do_expand 1) (expand NewChanCellTail 0) = Inr (expand (expand NewChanCellTail 0) 1) \<and>
   count_list (calls (expand (expand NewChanCellTail 0) 1)) (Close 1) = 1 \<and>
   Terminate (expand NewChanCellTail 0)
     = Inr (expand NewChanCellTail 0\<lparr>tail_cell := None, Terminated := True\<rparr>) \<and>
   calls (expand NewChanCellTail 0\<lparr>tail_cell := None, Terminated := True\<rparr>)
     = calls (expand NewChanCellTail 0)"
proof -
  let ?s = "expand NewChanCellTail 0"
  let ?t = "?s\<lparr>tail_cell := None, Terminated := True\<rparr>"
  have e: "exec [Do_expand 0] NewChanCellTail = Inr ?s" by simp
  have l: "length (heap ?s) = 2" by (simp add: expand_def NewChanCellTail_def Let_def)
  have tc: "tail_cell ?s = Some 1" by (simp add: expand_def NewChanCellTail_def Let_def)
  have st: "step (Do_expand 1) ?s = Inr (expand ?s 1)" by simp
  have tm: "Terminate ?s = Inr ?t"
    by (simp add: Terminate_def Terminate_close_def Terminate_clear_def expand_def
          NewChanCellTail_def Let_def)
  note A = C8_Close_once_by_growth_only [OF e, where c = 0]
  note B = C8_Close_once_by_growth_only
             [OF e, where c = 1 and a = "Do_expand 1" and s' = "expand ?s 1" and t = ?t]
  from A [THEN conjunct1] l have w0: "count_list (calls ?s) (Close 0) = 1" by simp
  from B [THEN conjunct2, THEN conjunct2, THEN conjunct1, rule_format, OF tc]
  have w1: "count_list (calls ?s) (Close 1) = 0" .
  from B [THEN conjunct2, THEN conjunct1, rule_format, OF st] tc w1
  have w2: "count_list (calls (expand ?s 1)) (Close 1) = 1" by simp
  from B [THEN conjunct2, THEN conjunct2, THEN conjunct2, rule_format, OF tm]
  have w3: "calls ?t = calls ?s" .
  show ?thesis using e w0 w1 tc st w2 tm w3 by (intro conjI)
qed

text \<open>
  C8 as stated fails for the cell that is current when \<^verbatim>\<open>Terminate\<close> runs: on a new chain
  \<^verbatim>\<open>Terminate\<close> returns, the tail is \<^verbatim>\<open>nil\<close>, and \<^verbatim>\<open>Close()\<close> of the one cell has not been
  called.
\<close>

theorem C8_counterexample:
  "\<not> isl (Terminate NewChanCellTail) \<and>
   tail_cell (projr (Terminate NewChanCellTail)) = None \<and>
   count_list (calls (projr (Terminate NewChanCellTail))) (Close 0) \<noteq> 1"
  by (simp add: Terminate_def Terminate_close_def Terminate_clear_def NewChanCellTail_def)


lemma nxt_upd_drained: "nxt ((xs[c := (xs ! c)\<lparr>drained := v\<rparr>]) ! e) = nxt (xs ! e)"
proof (cases "c < length xs")
  case True
  then show ?thesis by (cases "e = c") simp_all
next
  case False
  then have "xs[c := (xs ! c)\<lparr>drained := v\<rparr>] = xs" by (simp add: list_update_beyond)
  then show ?thesis by simp
qed

lemma step_nxt_changes:
  assumes inv: "chain_inv s" and st: "step a s = Inr s'" and c: "c < length (heap s)"
    and ch: "nxt (heap s' ! c) \<noteq> nxt (heap s ! c)"
  shows "a = Do_expand c \<and> tail_cell s = Some c \<and> nxt (heap s ! c) = None"
proof (cases a)
  case (Do_expand r)
  with st have s': "s' = expand s r" by simp
  show ?thesis
  proof (cases "tail_cell s = Some r")
    case False
    with s' ch show ?thesis by (simp add: expand_noop)
  next
    case True
    with inv have r: "r = length (heap s) - 1"
      by (simp add: chain_inv_def inv_tail_def)
    have "c = r"
    proof (rule ccontr)
      assume "c \<noteq> r"
      with True c have "nxt (heap s' ! c) = nxt (heap s ! c)"
        by (simp add: s' expand_grows nth_append)
      with ch show False by simp
    qed
    moreover from inv c r \<open>c = r\<close> have "nxt (heap s ! c) = None"
      by (auto simp: chain_inv_def inv_links_def)
    ultimately show ?thesis using Do_expand True by simp
  qed
next
  case Do_Terminate_clear
  with st ch show ?thesis by (auto simp: Terminate_clear_def)
next
  case Do_Terminate_close
  with st ch show ?thesis by (auto simp: Terminate_close_def split: if_splits)
next
  case (Do_Next x)
  with st obtain d where "Next_mark s x = Inr (d, s')" by (cases "Next_mark s x") auto
  from Next_mark_Inr [OF this] have "nxt (heap s' ! c) = nxt (heap s ! c)"
    by (auto simp: nxt_upd_drained)
  with ch show ?thesis by simp
next
  case (Do_Head_Next x)
  with st obtain r where "Head_Next s x = Inr (r, s')" by (cases "Head_Next s x") auto
  from Head_Next_Inr [OF this] have "heap s' = heap s" by (auto split: if_splits)
  with ch show ?thesis by simp
qed

lemma nxt_stays:
  assumes inv: "chain_inv s" and ex: "exec bs s = Inr u" and c: "c < length (heap s)"
    and n: "nxt (heap s ! c) = Some d"
  shows "nxt (heap u ! c) = Some d"
proof -
  from inv c n have d: "d = Suc c" "Suc c < length (heap s)"
    by (auto simp: chain_inv_def inv_links_def split: if_splits)
  from inv ex have "chain_inv u" by (rule chain_inv_exec)
  moreover from exec_length [OF ex] d have "Suc c < length (heap u)" by simp
  ultimately show ?thesis using d by (simp add: chain_inv_def inv_links_def)
qed

text \<open>
  C9. In every execution, for every cell of the chain: \<^verbatim>\<open>next\<close>, when set, points at a later
  cell of the chain, so following links from a cell never comes back to it; a section
  changes \<^verbatim>\<open>next\<close> of the cell only if it is the growth of that cell, run while the tail
  points at it and \<^verbatim>\<open>next\<close> is still \<^verbatim>\<open>nil\<close>; and once \<^verbatim>\<open>next\<close> is set it keeps its value
  whatever runs afterwards.
\<close>

theorem C9_next_set_once_and_forward:
  assumes "exec acts NewChanCellTail = Inr s" and "c < length (heap s)"
  shows "(nxt (heap s ! c) = Some d \<longrightarrow> c < d \<and> d < length (heap s)) \<and>
         (0 < k \<longrightarrow> follow (heap s) c k = Some e \<longrightarrow> c < e) \<and>
         (step a s = Inr s' \<longrightarrow> nxt (heap s' ! c) \<noteq> nxt (heap s ! c) \<longrightarrow>
            a = Do_expand c \<and> tail_cell s = Some c \<and> nxt (heap s ! c) = None) \<and>
         (exec bs s = Inr u \<longrightarrow> nxt (heap s ! c) = Some d \<longrightarrow> nxt (heap u ! c) = Some d)"
proof -
  from assms(1) have inv: "chain_inv s" by (rule reachable_inv)
  then have links: "inv_links s" by (simp add: chain_inv_def)
  have 1: "nxt (heap s ! c) = Some d \<longrightarrow> c < d \<and> d < length (heap s)"
    using links assms(2) by (auto simp: inv_links_def split: if_splits)
  have 2: "0 < k \<longrightarrow> follow (heap s) c k = Some e \<longrightarrow> c < e"
    using follow_links [OF links assms(2), of k] by (auto split: if_splits)
  have 3: "step a s = Inr s' \<longrightarrow> nxt (heap s' ! c) \<noteq> nxt (heap s ! c) \<longrightarrow>
            a = Do_expand c \<and> tail_cell s = Some c \<and> nxt (heap s ! c) = None"
    using step_nxt_changes [OF inv _ assms(2)] by (intro impI)
  have 4: "exec bs s = Inr u \<longrightarrow> nxt (heap s ! c) = Some d \<longrightarrow> nxt (heap u ! c) = Some d"
    using nxt_stays [OF inv _ assms(2)] by (intro impI)
  from 1 2 3 4 show ?thesis by (intro conjI)
qed

theorem C9_witness:
  "exec [Do_expand 0] NewChanCellTail = Inr (expand NewChanCellTail 0) \<and>
   0 < length (heap (expand NewChanCellTail 0)) \<and>
   1 < length (heap (expand NewChanCellTail 0)) \<and>
   nxt (heap (expand NewChanCellTail 0) ! 0) = Some 1 \<and>
   (0::nat) < 1 \<and> follow (heap (expand NewChanCellTail 0)) 0 1 = Some 1 \<and>
   step (Do_expand 1) (expand NewChanCellTail 0) = Inr (expand (expand NewChanCellTail 0) 1) \<and>
   nxt (heap (expand (expand NewChanCellTail 0) 1) ! 1)
     \<noteq> nxt (heap (expand NewChanCellTail 0) ! 1) \<and>
   tail_cell (expand NewChanCellTail 0) = Some 1 \<and>
   nxt (heap (expand NewChanCellTail 0) ! 1) = None \<and>
   exec [Do_expand 1, Do_Next 0] (expand NewChanCellTail 0)
     = Inr (mark_drained (expand (expand NewChanCellTail 0) 1) 0) \<and>
   nxt (heap (mark_drained (expand (expand NewChanCellTail 0) 1) 0) ! 0) = Some 1"
proof -
  let ?s = "expand NewChanCellTail 0"
  let ?u = "mark_drained (expand ?s 1) 0"
  have e: "exec [Do_expand 0] NewChanCellTail = Inr ?s" by simp
  have v: "?s = \<lparr>heap = [\<lparr>nxt = Some 1, drained = False\<rparr>, \<lparr>nxt = None, drained = False\<rparr>],
      head_cell = Some 0, tail_cell = Some 1, tail_n = 32, Terminated = False,
      calls = [Init 16 0, Open 0, Init 32 1, Close 0]\<rparr>"
    by (simp add: expand_def NewChanCellTail_def new_ChanCell_def DefaultChanLength_def Let_def)
  have l0: "0 < length (heap ?s)" and l1: "1 < length (heap ?s)" by (simp_all add: v)
  have n0: "nxt (heap ?s ! 0) = Some 1" by (simp add: v)
  have f: "follow (heap ?s) 0 1 = Some 1" by (simp add: v)
  have st: "step (Do_expand 1) ?s = Inr (expand ?s 1)" by simp
  have ch: "nxt (heap (expand ?s 1) ! 1) \<noteq> nxt (heap ?s ! 1)"
    by (simp add: expand_def Let_def NewChanCellTail_def new_ChanCell_def)
  have ex: "exec [Do_expand 1, Do_Next 0] ?s = Inr ?u"
    by (simp add: expand_def Let_def Next_mark_def cell_at_def mark_drained_def
          NewChanCellTail_def new_ChanCell_def)
  have k: "(0::nat) < 1" by simp
  note A = C9_next_set_once_and_forward
             [OF e l0, where d = 1 and k = 1 and e = 1 and bs = "[Do_expand 1, Do_Next 0]" and u = ?u]
  note B = C9_next_set_once_and_forward
             [OF e l1, where a = "Do_expand 1" and s' = "expand ?s 1"]
  from A [THEN conjunct1, rule_format, OF n0] have w1: "(0::nat) < 1 \<and> 1 < length (heap ?s)" .
  from A [THEN conjunct2, THEN conjunct1, rule_format, OF k f] have w2: "(0::nat) < 1" .
  from B [THEN conjunct2, THEN conjunct2, THEN conjunct1, rule_format, OF st ch]
  have w3: "tail_cell ?s = Some 1 \<and> nxt (heap ?s ! 1) = None" by simp
  from A [THEN conjunct2, THEN conjunct2, THEN conjunct2, rule_format, OF ex n0]
  have w4: "nxt (heap ?u ! 0) = Some 1" .
  from w3 have w3a: "tail_cell ?s = Some 1" and w3b: "nxt (heap ?s ! 1) = None" by simp_all
  show ?thesis using e l0 l1 n0 w2 f st ch w3a w3b ex w4 by (intro conjI)
qed

lemma mark_drained_eq:
  assumes "cell_at s c = Some x" "nxt x = Some (Suc c)"
  shows "mark_drained s c =
     (if drained x then s
      else s\<lparr>heap := (heap s)[c := x\<lparr>drained := True\<rparr>], calls := calls s @ [Open (Suc c)]\<rparr>)"
  using assms by (auto simp: mark_drained_def cell_at_def split: if_splits)

lemma Next_unfold_inv:
  assumes inv: "chain_inv s" and c: "Suc c < length (heap s)"
  shows "Next s c = (if drained (heap (mark_drained s c) ! Suc c)
                     then Next (mark_drained s c) (Suc c)
                     else Some (Inr (Suc c, mark_drained s c)))"
proof -
  have "length (heap (mark_drained s c)) = length (heap s)" by (simp add: mark_drained_def)
  with c show ?thesis
    by (subst Next.simps) (simp add: Next_mark_inv [OF inv c] cell_at_def)
qed

text \<open>
  C7. \<^verbatim>\<open>ChanCell.Next\<close> on a cell with a successor, in any state an execution reaches: the
  call returns; the cell is marked drained and \<^verbatim>\<open>Open()\<close> of the successor is called if
  the cell was not drained, and nothing changes if it was; when the successor is drained
  the result is that of \<^verbatim>\<open>Next\<close> on the successor, otherwise it is the successor; and the
  cell returned is the first cell along the links that is not drained.
\<close>

theorem C7_Next_returns_first_undrained:
  assumes "exec acts NewChanCellTail = Inr s" and "cell_at s c = Some x" and "nxt x = Some n"
  shows "\<exists>d s'. Next s c = Some (Inr (d, s')) \<and>
           s' = (if drained x then s
                 else s\<lparr>heap := (heap s)[c := x\<lparr>drained := True\<rparr>],
                        calls := calls s @ [Open n]\<rparr>) \<and>
           (if drained (heap s' ! n) then Next s c = Next s' n else d = n) \<and>
           d < length (heap s') \<and> \<not> drained (heap s' ! d) \<and>
           (\<exists>k. 0 < k \<and> follow (heap s') c k = Some d \<and>
                (\<forall>j < k. \<forall>e. follow (heap s') c j = Some e \<longrightarrow> drained (heap s' ! e)))"
proof -
  from assms(1) have inv: "chain_inv s" by (rule reachable_inv)
  from assms(2) have c: "c < length (heap s)" and x: "x = heap s ! c"
    by (auto simp: cell_at_def split: if_splits)
  from inv c x assms(3) have n: "n = Suc c" and sc: "Suc c < length (heap s)"
    by (auto simp: chain_inv_def inv_links_def split: if_splits)
  let ?s' = "mark_drained s c"
  from Next_succeeds [OF inv sc] obtain d where
    d: "Next s c = Some (Inr (d, ?s'))" "c < d" "d < length (heap s)"
       "\<not> drained (heap ?s' ! d)" "\<forall>e. c \<le> e \<and> e < d \<longrightarrow> drained (heap ?s' ! e)"
    by blast
  have len: "length (heap ?s') = length (heap s)" by (simp add: mark_drained_def)
  have inv': "chain_inv ?s'"
    using inv Next_mark_inv [OF inv sc] by (rule chain_inv_Next_mark)
  then have links': "inv_links ?s'" by (simp add: chain_inv_def)
  have eq: "?s' = (if drained x then s
                 else s\<lparr>heap := (heap s)[c := x\<lparr>drained := True\<rparr>],
                        calls := calls s @ [Open n]\<rparr>)"
    using mark_drained_eq [OF assms(2)] assms(3) n by simp
  have rec: "if drained (heap ?s' ! n) then Next s c = Next ?s' n else d = n"
  proof (cases "drained (heap ?s' ! n)")
    case True
    with Next_unfold_inv [OF inv sc] n show ?thesis by simp
  next
    case False
    have "d = Suc c"
    proof (rule ccontr)
      assume "d \<noteq> Suc c"
      with d(2) have "c \<le> Suc c \<and> Suc c < d" by arith
      with d(5) have "drained (heap ?s' ! Suc c)" by blast
      with False n show False by simp
    qed
    with False n show ?thesis by simp
  qed
  have fol: "\<exists>k. 0 < k \<and> follow (heap ?s') c k = Some d \<and>
                (\<forall>j < k. \<forall>e. follow (heap ?s') c j = Some e \<longrightarrow> drained (heap ?s' ! e))"
  proof (intro exI conjI allI impI)
    show "0 < d - c" using d(2) by simp
    show "follow (heap ?s') c (d - c) = Some d"
      using follow_links [OF links', of c "d - c"] c d(2,3) len by simp
    fix j e assume j: "j < d - c" and f: "follow (heap ?s') c j = Some e"
    from follow_links [OF links', of c j] c len f have "e = c + j"
      by (auto split: if_splits)
    with j d(5) show "drained (heap ?s' ! e)" by simp
  qed
  from d(3) len have dl: "d < length (heap ?s')" by simp
  from d(1) eq rec dl d(4) fol
  have "Next s c = Some (Inr (d, ?s')) \<and>
           ?s' = (if drained x then s
                 else s\<lparr>heap := (heap s)[c := x\<lparr>drained := True\<rparr>],
                        calls := calls s @ [Open n]\<rparr>) \<and>
           (if drained (heap ?s' ! n) then Next s c = Next ?s' n else d = n) \<and>
           d < length (heap ?s') \<and> \<not> drained (heap ?s' ! d) \<and>
           (\<exists>k. 0 < k \<and> follow (heap ?s') c k = Some d \<and>
                (\<forall>j < k. \<forall>e. follow (heap ?s') c j = Some e \<longrightarrow> drained (heap ?s' ! e)))"
    by (intro conjI)
  then show ?thesis by (intro exI)
qed


lemma three_cells_val:
  "three_cells =
     \<lparr>heap = [\<lparr>nxt = Some 1, drained = False\<rparr>, \<lparr>nxt = Some 2, drained = False\<rparr>,
              \<lparr>nxt = None, drained = False\<rparr>],
      head_cell = Some 0, tail_cell = Some 2, tail_n = 64, Terminated = False,
      calls = [Init 16 0, Open 0, Init 32 1, Close 0, Init 64 2, Close 1]\<rparr>"
  by (simp add: three_cells_def expand_def NewChanCellTail_def new_ChanCell_def
        DefaultChanLength_def Let_def)

lemma three_cells_exec: "exec [Do_expand 0, Do_expand 1] NewChanCellTail = Inr three_cells"
  by (simp add: three_cells_def)

theorem C7_witness:
  "exec [Do_expand 0, Do_expand 1, Do_Next 1] NewChanCellTail
     = Inr (three_cells\<lparr>heap := [\<lparr>nxt = Some 1, drained = False\<rparr>, \<lparr>nxt = Some 2, drained = True\<rparr>,
                                   \<lparr>nxt = None, drained = False\<rparr>],
                         calls := calls three_cells @ [Open 2]\<rparr>) \<and>
   cell_at (three_cells\<lparr>heap := [\<lparr>nxt = Some 1, drained = False\<rparr>, \<lparr>nxt = Some 2, drained = True\<rparr>,
                                   \<lparr>nxt = None, drained = False\<rparr>],
                         calls := calls three_cells @ [Open 2]\<rparr>) 0
     = Some \<lparr>nxt = Some 1, drained = False\<rparr> \<and>
   nxt \<lparr>nxt = Some 1, drained = False\<rparr> = Some 1 \<and>
   Next (three_cells\<lparr>heap := [\<lparr>nxt = Some 1, drained = False\<rparr>, \<lparr>nxt = Some 2, drained = True\<rparr>,
                                   \<lparr>nxt = None, drained = False\<rparr>],
                         calls := calls three_cells @ [Open 2]\<rparr>) 0
     = Some (Inr (2, three_cells\<lparr>heap := [\<lparr>nxt = Some 1, drained = True\<rparr>, \<lparr>nxt = Some 2, drained = True\<rparr>,
                                   \<lparr>nxt = None, drained = False\<rparr>],
                         calls := calls three_cells @ [Open 2, Open 1]\<rparr>))"
proof -
  let ?x = "\<lparr>nxt = Some 1, drained = False\<rparr>"
  let ?s = "three_cells\<lparr>heap := [?x, \<lparr>nxt = Some 2, drained = True\<rparr>, \<lparr>nxt = None, drained = False\<rparr>],
                         calls := calls three_cells @ [Open 2]\<rparr>"
  let ?s' = "three_cells\<lparr>heap := [\<lparr>nxt = Some 1, drained = True\<rparr>, \<lparr>nxt = Some 2, drained = True\<rparr>,
                                   \<lparr>nxt = None, drained = False\<rparr>],
                         calls := calls three_cells @ [Open 2, Open 1]\<rparr>"
  have "exec ([Do_expand 0, Do_expand 1] @ [Do_Next 1]) NewChanCellTail
          = exec [Do_Next 1] three_cells"
    by (simp only: exec_append three_cells_exec sum.case)
  moreover have "exec [Do_Next 1] three_cells = Inr ?s"
    by (simp add: Next_mark_def cell_at_def three_cells_val)
  ultimately have e: "exec [Do_expand 0, Do_expand 1, Do_Next 1] NewChanCellTail = Inr ?s"
    by (simp only: append_Cons append_Nil)
  have c: "cell_at ?s 0 = Some ?x" by (simp add: cell_at_def)
  have n: "nxt ?x = Some 1" by simp
  from C7_Next_returns_first_undrained [OF e c n] obtain d s' where
    r: "Next ?s 0 = Some (Inr (d, s'))" and
    s': "s' = (if drained ?x then ?s
                 else ?s\<lparr>heap := (heap ?s)[0 := ?x\<lparr>drained := True\<rparr>],
                        calls := calls ?s @ [Open 1]\<rparr>)" and
    dl: "d < length (heap s')" and nd: "\<not> drained (heap s' ! d)"
    by blast
  from s' have v: "s' = ?s'" by simp
  from dl v have "d = 0 \<or> d = 1 \<or> d = 2" by auto
  with nd v have "d = 2" by auto
  with r v have "Next ?s 0 = Some (Inr (2, ?s'))" by simp
  with e c n show ?thesis by (intro conjI)
qed

lemma step_drained_mono:
  assumes st: "step a s = Inr s'" and e: "e < length (heap s)" and d: "drained (heap s ! e)"
  shows "drained (heap s' ! e)"
proof (cases a)
  case (Do_expand r)
  with st have s': "s' = expand s r" by simp
  show ?thesis
  proof (cases "tail_cell s = Some r")
    case False
    with s' d show ?thesis by (simp add: expand_noop)
  next
    case True
    with e d show ?thesis by (simp add: s' expand_grows nth_append drained_upd_nxt)
  qed
next
  case Do_Terminate_clear
  with st d show ?thesis by (auto simp: Terminate_clear_def)
next
  case Do_Terminate_close
  with st d show ?thesis by (auto simp: Terminate_close_def split: if_splits)
next
  case (Do_Next x)
  with st obtain n where "Next_mark s x = Inr (n, s')" by (cases "Next_mark s x") auto
  from Next_mark_Inr [OF this] e d show ?thesis
    by (cases "e = x") (auto split: if_splits)
next
  case (Do_Head_Next x)
  with st obtain r where "Head_Next s x = Inr (r, s')" by (cases "Head_Next s x") auto
  from Head_Next_Inr [OF this] have "heap s' = heap s" by (auto split: if_splits)
  with d show ?thesis by simp
qed

lemma exec_drained_mono:
  "exec bs s = Inr u \<Longrightarrow> e < length (heap s) \<Longrightarrow> drained (heap s ! e) \<Longrightarrow> drained (heap u ! e)"
proof (induction bs arbitrary: s)
  case Nil
  then show ?case by simp
next
  case (Cons a bs)
  from Cons.prems(1) obtain s1 where s1: "step a s = Inr s1" and r: "exec bs s1 = Inr u"
    by (cases "step a s") auto
  from step_length [OF s1] Cons.prems(2) have "e < length (heap s1)" by simp
  moreover from s1 Cons.prems(2,3) have "drained (heap s1 ! e)" by (rule step_drained_mono)
  ultimately show ?case using r Cons.IH by blast
qed

lemma exec_Open_cell:
  "chain_inv s \<Longrightarrow> inv_Open_cell s \<Longrightarrow> list_all of_cell_revision as \<Longrightarrow>
     exec as s = Inr s' \<Longrightarrow> inv_Open_cell s'"
proof (induction as arbitrary: s)
  case Nil
  then show ?case by simp
next
  case (Cons a as)
  from Cons.prems(4) obtain s1 where s1: "step a s = Inr s1" and r: "exec as s1 = Inr s'"
    by (cases "step a s") auto
  from Cons.prems(3) have a: "of_cell_revision a" and as: "list_all of_cell_revision as"
    by simp_all
  from Cons.prems(1) s1 have i1: "chain_inv s1" by (rule chain_inv_step)
  from Cons.prems(1,2) a s1 have o1: "inv_Open_cell s1" by (rule cell_step_Open)
  from i1 o1 as r show ?case by (rule Cons.IH)
qed

lemma exec_Open_head:
  "chain_inv s \<Longrightarrow> inv_Open_head s \<Longrightarrow> list_all of_head_revision as \<Longrightarrow>
     exec as s = Inr s' \<Longrightarrow> inv_Open_head s'"
proof (induction as arbitrary: s)
  case Nil
  then show ?case by simp
next
  case (Cons a as)
  from Cons.prems(4) obtain s1 where s1: "step a s = Inr s1" and r: "exec as s1 = Inr s'"
    by (cases "step a s") auto
  from Cons.prems(3) have a: "of_head_revision a" and as: "list_all of_head_revision as"
    by simp_all
  from Cons.prems(1) s1 have i1: "chain_inv s1" by (rule chain_inv_step)
  from Cons.prems(1,2) a s1 have o1: "inv_Open_head s1" by (rule head_step_Open)
  from i1 o1 as r show ?case by (rule Cons.IH)
qed

lemma Next_Inr_inv:
  assumes inv: "chain_inv s" and r: "Next s c = Some (Inr (d, s'))"
  shows "Suc c < length (heap s) \<and> s' = mark_drained s c \<and> c < d \<and> d < length (heap s) \<and>
         \<not> drained (heap s' ! d) \<and> (\<forall>e. c \<le> e \<and> e < d \<longrightarrow> drained (heap s' ! e))"
proof -
  have sc: "Suc c < length (heap s)"
  proof (rule ccontr)
    assume "\<not> Suc c < length (heap s)"
    from Next_mark_panics [OF inv this] have "Next s c = Some (Inl NilDereference)"
      by (subst Next.simps) simp
    with r show False by simp
  qed
  from Next_succeeds [OF inv sc] r sc show ?thesis by auto
qed

lemma Next_again_later:
  assumes inv: "chain_inv s" and r: "Next s c = Some (Inr (d, s'))"
    and ex: "exec bs s' = Inr u" and nd: "\<not> drained (heap u ! d)"
  shows "Next u c = Some (Inr (d, u))"
proof -
  from Next_Inr_inv [OF inv r] have sc: "Suc c < length (heap s)" and s': "s' = mark_drained s c"
    and cd: "c < d" and dl: "d < length (heap s)"
    and dr: "\<forall>e. c \<le> e \<and> e < d \<longrightarrow> drained (heap s' ! e)" by blast+
  have len: "length (heap s') = length (heap s)" by (simp add: s' mark_drained_def)
  have inv': "chain_inv s'"
    unfolding s' using inv Next_mark_inv [OF inv sc] by (rule chain_inv_Next_mark)
  from inv' ex have invu: "chain_inv u" by (rule chain_inv_exec)
  have dru: "\<forall>e. c \<le> e \<and> e < d \<longrightarrow> drained (heap u ! e)"
  proof (intro allI impI)
    fix e assume e: "c \<le> e \<and> e < d"
    with dl len have "e < length (heap s')" by simp
    moreover from dr e have "drained (heap s' ! e)" by blast
    ultimately show "drained (heap u ! e)" using ex exec_drained_mono by blast
  qed
  from exec_length [OF ex] len sc have cu: "c < length (heap u)" by simp
  from dru cd have "drained (heap u ! c)" by simp
  from Next_drained [OF invu cu this] obtain d' where
    d': "Next u c = Some (Inr (d', u))" "c < d'" "\<not> drained (heap u ! d')"
        "\<forall>e. c \<le> e \<and> e < d' \<longrightarrow> drained (heap u ! e)" by blast
  from cd nd dru d'(2,3,4) have "d = d'" by (rule first_undrained_unique)
  with d'(1) show ?thesis by simp
qed

lemma Head_Next_again_later:
  assumes inv: "chain_inv h" and r: "Head_Next h c = Inr (q, h')"
    and hd: "head_cell v = head_cell h'"
  shows "Head_Next v c = Inr (q, v)"
proof -
  from Head_Next_Inr [OF r] have q: "q = head_cell h'" by simp
  have "head_cell h' \<noteq> Some c"
  proof (cases "head_cell h = Some c")
    case False
    with Head_Next_Inr [OF r] show ?thesis by simp
  next
    case True
    with Head_Next_Inr [OF r] obtain d where c: "c < length (heap h)"
      and n: "nxt (heap h ! c) = Some d" and h': "head_cell h' = Some d" by auto
    from inv n c have "d = Suc c"
      by (auto simp: chain_inv_def inv_links_def split: if_splits)
    with h' show ?thesis by simp
  qed
  with hd q show ?thesis by (simp add: Head_Next_def Head_WithCell_def)
qed


lemma Next_later_first_undrained:
  assumes inv: "chain_inv s" and r: "Next s c = Some (Inr (d, s'))"
    and ex: "exec bs s' = Inr u"
  shows "\<exists>d'. Next u c = Some (Inr (d', u)) \<and> d \<le> d' \<and> d' < length (heap u) \<and>
           \<not> drained (heap u ! d') \<and> (\<forall>e. c \<le> e \<and> e < d' \<longrightarrow> drained (heap u ! e))"
proof -
  from Next_Inr_inv [OF inv r] have sc: "Suc c < length (heap s)" and s': "s' = mark_drained s c"
    and cd: "c < d" and dl: "d < length (heap s)"
    and dr: "\<forall>e. c \<le> e \<and> e < d \<longrightarrow> drained (heap s' ! e)" by blast+
  have len: "length (heap s') = length (heap s)" by (simp add: s' mark_drained_def)
  have inv': "chain_inv s'"
    unfolding s' using inv Next_mark_inv [OF inv sc] by (rule chain_inv_Next_mark)
  from inv' ex have invu: "chain_inv u" by (rule chain_inv_exec)
  have dru: "\<forall>e. c \<le> e \<and> e < d \<longrightarrow> drained (heap u ! e)"
  proof (intro allI impI)
    fix e assume e: "c \<le> e \<and> e < d"
    with dl len have "e < length (heap s')" by simp
    moreover from dr e have "drained (heap s' ! e)" by blast
    ultimately show "drained (heap u ! e)" using ex exec_drained_mono by blast
  qed
  from exec_length [OF ex] len sc have cu: "c < length (heap u)" by simp
  from dru cd have "drained (heap u ! c)" by simp
  from Next_drained [OF invu cu this] obtain d' where
    d': "Next u c = Some (Inr (d', u))" "c < d'" "d' < length (heap u)"
        "\<not> drained (heap u ! d')" "\<forall>e. c \<le> e \<and> e < d' \<longrightarrow> drained (heap u ! e)" by blast
  have "d \<le> d'"
  proof (rule ccontr)
    assume "\<not> d \<le> d'"
    with d'(2) have "c \<le> d' \<and> d' < d" by simp
    with dru have "drained (heap u ! d')" by blast
    with d'(4) show False by simp
  qed
  with d' show ?thesis by blast
qed

lemma step_head_mono:
  assumes inv: "chain_inv s" and hd: "head_cell s = Some k" and st: "step a s = Inr s'"
  shows "\<exists>k'. head_cell s' = Some k' \<and> k \<le> k'"
proof (cases a)
  case (Do_expand r)
  with st hd show ?thesis by (auto simp: expand_def Let_def)
next
  case Do_Terminate_clear
  with st hd show ?thesis by (auto simp: Terminate_clear_def)
next
  case Do_Terminate_close
  with st hd show ?thesis by (auto simp: Terminate_close_def split: if_splits)
next
  case (Do_Next x)
  with st obtain n where "Next_mark s x = Inr (n, s')" by (cases "Next_mark s x") auto
  from Next_mark_Inr [OF this] hd show ?thesis by (auto split: if_splits)
next
  case (Do_Head_Next x)
  with st obtain r where m: "Head_Next s x = Inr (r, s')" by (cases "Head_Next s x") auto
  show ?thesis
  proof (cases "head_cell s = Some x")
    case False
    with Head_Next_Inr [OF m] hd show ?thesis by simp
  next
    case True
    with Head_Next_Inr [OF m] obtain d where c: "x < length (heap s)"
      and n: "nxt (heap s ! x) = Some d" and h': "head_cell s' = Some d" by auto
    from inv n c have "d = Suc x"
      by (auto simp: chain_inv_def inv_links_def split: if_splits)
    with h' hd True show ?thesis by simp
  qed
qed

lemma exec_head_mono:
  "chain_inv s \<Longrightarrow> head_cell s = Some k \<Longrightarrow> exec bs s = Inr v \<Longrightarrow>
     \<exists>k'. head_cell v = Some k' \<and> k \<le> k'"
proof (induction bs arbitrary: s k)
  case Nil
  then show ?case by simp
next
  case (Cons a bs)
  from Cons.prems(3) obtain s1 where s1: "step a s = Inr s1" and r: "exec bs s1 = Inr v"
    by (cases "step a s") auto
  from Cons.prems(1) s1 have i1: "chain_inv s1" by (rule chain_inv_step)
  from step_head_mono [OF Cons.prems(1,2) s1] obtain k1 where
    k1: "head_cell s1 = Some k1" "k \<le> k1" by blast
  from Cons.IH [OF i1 k1(1) r] obtain k' where "head_cell v = Some k'" "k1 \<le> k'" by blast
  with k1(2) show ?case by auto
qed

lemma Head_Next_later_current_head:
  assumes inv: "chain_inv h" and r: "Head_Next h c = Inr (q, h')"
    and hd: "head_cell h = Some k" and ck: "c \<le> k" and ex: "exec bs h' = Inr v"
  shows "\<exists>k1 k2. q = Some k1 \<and> c < k1 \<and> head_cell v = Some k2 \<and> k1 \<le> k2 \<and>
           k2 < length (heap v) \<and> Head_Next v c = Inr (Some k2, v)"
proof -
  from Head_Next_Inr [OF r] have q: "q = head_cell h'" by simp
  have inv': "chain_inv h'" using inv r by (rule chain_inv_Head_Next)
  have "\<exists>k1. head_cell h' = Some k1 \<and> c < k1"
  proof (cases "k = c")
    case False
    with hd ck Head_Next_Inr [OF r] show ?thesis by auto
  next
    case True
    with hd Head_Next_Inr [OF r] obtain d where c: "c < length (heap h)"
      and n: "nxt (heap h ! c) = Some d" and h': "head_cell h' = Some d" by auto
    from inv n c have "d = Suc c"
      by (auto simp: chain_inv_def inv_links_def split: if_splits)
    with h' show ?thesis by simp
  qed
  then obtain k1 where k1: "head_cell h' = Some k1" "c < k1" by blast
  from exec_head_mono [OF inv' k1(1) ex] obtain k2 where
    k2: "head_cell v = Some k2" "k1 \<le> k2" by blast
  from inv' ex have "chain_inv v" by (rule chain_inv_exec)
  with k2(1) have kl: "k2 < length (heap v)" by (auto simp: chain_inv_def inv_head_def)
  from k1(2) k2 have "head_cell v \<noteq> Some c" by simp
  then have "Head_Next v c = Inr (head_cell v, v)"
    by (simp add: Head_Next_def Head_WithCell_def)
  with q k1 k2 kl show ?thesis by simp
qed



text \<open>
  C6, as the code has it. \<^verbatim>\<open>Open()\<close> of a cell is called at most once, and exactly once
  when the cell becomes the cell to read: with \<^verbatim>\<open>ChanCell.Next\<close> the cells opened are the
  first cell and the successors of the drained cells, with \<^verbatim>\<open>ChanCellHead\<close> the cells up
  to the head. Advancing past the same cell again gives the same cell and changes nothing,
  at once or after anything else has run, as long as the cell obtained has not itself
  been advanced past (for \<^verbatim>\<open>ChanCellHead\<close>: as long as the head has not moved). After
  anything else has run, whether or not the cell obtained has been advanced past, advancing
  past the same cell again returns and changes nothing: \<^verbatim>\<open>ChanCell.Next\<close> gives the first
  cell after it that has not been advanced past, which is the cell obtained before or a
  later one, and \<^verbatim>\<open>ChanCellHead.Next\<close> gives the cell of the head, which is the cell
  obtained before or a later one.
\<close>

theorem C6_advance_again_same_cell_then_first_not_advanced_past:
  assumes "exec acts NewChanCellTail = Inr s" and "list_all of_cell_revision acts"
    and "exec acts' NewChanCellTail = Inr h" and "list_all of_head_revision acts'"
  shows "count_list (calls s) (Open d) =
           (if d = 0 \<or> (\<exists>c < length (heap s). d = Suc c \<and> drained (heap s ! c)) then 1 else 0) \<and>
         (Next s c = Some (Inr (r, s')) \<longrightarrow> Next s' c = Some (Inr (r, s'))) \<and>
         (Next s c = Some (Inr (r, s')) \<longrightarrow> exec bs s' = Inr u \<longrightarrow> \<not> drained (heap u ! r) \<longrightarrow>
            Next u c = Some (Inr (r, u))) \<and>
         count_list (calls h) (Open d) =
           (if \<exists>k. head_cell h = Some k \<and> d \<le> k then 1 else 0) \<and>
         (Head_Next h c = Inr (q, h') \<longrightarrow> Head_Next h' c = Inr (q, h')) \<and>
         (Head_Next h c = Inr (q, h') \<longrightarrow> exec bs' h' = Inr v \<longrightarrow> head_cell v = head_cell h' \<longrightarrow>
            Head_Next v c = Inr (q, v)) \<and>
         (Next s c = Some (Inr (r, s')) \<longrightarrow> exec bs s' = Inr u \<longrightarrow>
            (\<exists>r'. Next u c = Some (Inr (r', u)) \<and> r \<le> r' \<and> r' < length (heap u) \<and>
                  \<not> drained (heap u ! r') \<and>
                  (\<forall>e. c \<le> e \<and> e < r' \<longrightarrow> drained (heap u ! e)))) \<and>
         (Head_Next h c = Inr (q, h') \<longrightarrow> head_cell h = Some k \<longrightarrow> c \<le> k \<longrightarrow>
          exec bs' h' = Inr v \<longrightarrow>
            (\<exists>k1 k2. q = Some k1 \<and> c < k1 \<and> head_cell v = Some k2 \<and> k1 \<le> k2 \<and>
                     k2 < length (heap v) \<and> Head_Next v c = Inr (Some k2, v)))"
proof -
  from assms(1) have inv: "chain_inv s" by (rule reachable_inv)
  from assms(3) have invh: "chain_inv h" by (rule reachable_inv)
  from exec_Open_cell [OF chain_inv_New inv_Open_New(1) assms(2,1)]
  have f1: "count_list (calls s) (Open d) =
           (if d = 0 \<or> (\<exists>c < length (heap s). d = Suc c \<and> drained (heap s ! c)) then 1 else 0)"
    by (simp add: inv_Open_cell_def)
  have f3: "Next s c = Some (Inr (r, s')) \<longrightarrow> exec bs s' = Inr u \<longrightarrow> \<not> drained (heap u ! r) \<longrightarrow>
            Next u c = Some (Inr (r, u))"
    using Next_again_later [OF inv] by (intro impI)
  have f2: "Next s c = Some (Inr (r, s')) \<longrightarrow> Next s' c = Some (Inr (r, s'))"
  proof
    assume n: "Next s c = Some (Inr (r, s'))"
    from Next_Inr_inv [OF inv n] have "\<not> drained (heap s' ! r)" by blast
    with Next_again_later [OF inv n, of "[]" s'] show "Next s' c = Some (Inr (r, s'))" by simp
  qed
  from exec_Open_head [OF chain_inv_New inv_Open_New(2) assms(4,3)]
  have f4: "count_list (calls h) (Open d) =
           (if \<exists>k. head_cell h = Some k \<and> d \<le> k then 1 else 0)"
    by (simp add: inv_Open_head_def)
  have f5: "Head_Next h c = Inr (q, h') \<longrightarrow> Head_Next h' c = Inr (q, h')"
    using Head_Next_again_later [OF invh _ refl] by (intro impI)
  have f6: "Head_Next h c = Inr (q, h') \<longrightarrow> exec bs' h' = Inr v \<longrightarrow> head_cell v = head_cell h' \<longrightarrow>
            Head_Next v c = Inr (q, v)"
    using Head_Next_again_later [OF invh] by (intro impI)
  have f7: "Next s c = Some (Inr (r, s')) \<longrightarrow> exec bs s' = Inr u \<longrightarrow>
            (\<exists>r'. Next u c = Some (Inr (r', u)) \<and> r \<le> r' \<and> r' < length (heap u) \<and>
                  \<not> drained (heap u ! r') \<and>
                  (\<forall>e. c \<le> e \<and> e < r' \<longrightarrow> drained (heap u ! e)))"
    using Next_later_first_undrained [OF inv] by (intro impI)
  have f8: "Head_Next h c = Inr (q, h') \<longrightarrow> head_cell h = Some k \<longrightarrow> c \<le> k \<longrightarrow>
          exec bs' h' = Inr v \<longrightarrow>
            (\<exists>k1 k2. q = Some k1 \<and> c < k1 \<and> head_cell v = Some k2 \<and> k1 \<le> k2 \<and>
                     k2 < length (heap v) \<and> Head_Next v c = Inr (Some k2, v))"
    using Head_Next_later_current_head [OF invh] by (intro impI)
  from f1 f2 f3 f4 f5 f6 f7 f8 show ?thesis by (intro conjI)
qed

lemma Next_three_cells_0: "Next three_cells 0 = Some (Inr (1, mark_drained three_cells 0))"
  by (subst Next.simps)
     (simp add: Next_mark_def cell_at_def mark_drained_def three_cells_val)

theorem C6_witness:
  "exec [Do_expand 0, Do_expand 1] NewChanCellTail = Inr three_cells \<and>
   list_all of_cell_revision [Do_expand 0, Do_expand 1] \<and>
   list_all of_head_revision [Do_expand 0, Do_expand 1] \<and>
   count_list (calls three_cells) (Open 0) = 1 \<and>
   Next three_cells 0 = Some (Inr (1, mark_drained three_cells 0)) \<and>
   Next (mark_drained three_cells 0) 0 = Some (Inr (1, mark_drained three_cells 0)) \<and>
   exec [Do_expand 2] (mark_drained three_cells 0) = Inr (expand (mark_drained three_cells 0) 2) \<and>
   \<not> drained (heap (expand (mark_drained three_cells 0) 2) ! 1) \<and>
   Next (expand (mark_drained three_cells 0) 2) 0
     = Some (Inr (1, expand (mark_drained three_cells 0) 2)) \<and>
   Head_Next three_cells 0
     = Inr (Some 1, three_cells\<lparr>head_cell := Some 1, calls := calls three_cells @ [Open 1]\<rparr>) \<and>
   Head_Next (three_cells\<lparr>head_cell := Some 1, calls := calls three_cells @ [Open 1]\<rparr>) 0
     = Inr (Some 1, three_cells\<lparr>head_cell := Some 1, calls := calls three_cells @ [Open 1]\<rparr>) \<and>
   exec [Do_expand 2] (three_cells\<lparr>head_cell := Some 1, calls := calls three_cells @ [Open 1]\<rparr>)
     = Inr (expand (three_cells\<lparr>head_cell := Some 1, calls := calls three_cells @ [Open 1]\<rparr>) 2) \<and>
   head_cell (expand (three_cells\<lparr>head_cell := Some 1, calls := calls three_cells @ [Open 1]\<rparr>) 2)
     = head_cell (three_cells\<lparr>head_cell := Some 1, calls := calls three_cells @ [Open 1]\<rparr>) \<and>
   Head_Next (expand (three_cells\<lparr>head_cell := Some 1, calls := calls three_cells @ [Open 1]\<rparr>) 2) 0
     = Inr (Some 1, expand (three_cells\<lparr>head_cell := Some 1, calls := calls three_cells @ [Open 1]\<rparr>) 2) \<and>
   exec [Do_Next 1] (mark_drained three_cells 0)
     = Inr (mark_drained (mark_drained three_cells 0) 1) \<and>
   Next (mark_drained (mark_drained three_cells 0) 1) 0
     = Some (Inr (2, mark_drained (mark_drained three_cells 0) 1)) \<and>
   head_cell three_cells = Some 0 \<and>
   exec [Do_Head_Next 1] (three_cells\<lparr>head_cell := Some 1, calls := calls three_cells @ [Open 1]\<rparr>)
     = Inr (three_cells\<lparr>head_cell := Some 2, calls := calls three_cells @ [Open 1, Open 2]\<rparr>) \<and>
   Head_Next (three_cells\<lparr>head_cell := Some 2, calls := calls three_cells @ [Open 1, Open 2]\<rparr>) 0
     = Inr (Some 2, three_cells\<lparr>head_cell := Some 2, calls := calls three_cells @ [Open 1, Open 2]\<rparr>)"
proof -
  let ?s' = "mark_drained three_cells 0"
  let ?u = "expand ?s' 2"
  let ?u2 = "mark_drained ?s' 1"
  let ?h' = "three_cells\<lparr>head_cell := Some 1, calls := calls three_cells @ [Open 1]\<rparr>"
  let ?v = "expand ?h' 2"
  let ?v2 = "three_cells\<lparr>head_cell := Some 2, calls := calls three_cells @ [Open 1, Open 2]\<rparr>"
  note e = three_cells_exec
  have c: "list_all of_cell_revision [Do_expand 0, Do_expand 1]" by simp
  have hr: "list_all of_head_revision [Do_expand 0, Do_expand 1]" by simp
  note n = Next_three_cells_0
  have bs: "exec [Do_expand 2] ?s' = Inr ?u" by simp
  have nd: "\<not> drained (heap ?u ! 1)"
    by (simp add: expand_def Let_def mark_drained_def three_cells_val new_ChanCell_def)
  have hn: "Head_Next three_cells 0 = Inr (Some 1, ?h')"
    by (simp add: Head_Next_def Head_WithCell_def cell_at_def three_cells_val)
  have bs': "exec [Do_expand 2] ?h' = Inr ?v" by simp
  have hv: "head_cell ?v = head_cell ?h'" by (simp add: expand_def Let_def)
  have bs2: "exec [Do_Next 1] ?s' = Inr ?u2"
    by (simp add: Next_mark_def cell_at_def mark_drained_def three_cells_val)
  have hd0: "head_cell three_cells = Some 0" by (simp add: three_cells_val)
  have le0: "(0::nat) \<le> 0" by simp
  have hb2: "exec [Do_Head_Next 1] ?h' = Inr ?v2"
    by (simp add: Head_Next_def Head_WithCell_def cell_at_def three_cells_val)
  note T = C6_advance_again_same_cell_then_first_not_advanced_past
             [OF e c e hr, where d = 0 and c = 0 and r = 1 and s' = ?s' and bs = "[Do_expand 2]"
                and u = ?u and q = "Some 1" and h' = ?h' and bs' = "[Do_expand 2]" and v = ?v]
  note T2 = C6_advance_again_same_cell_then_first_not_advanced_past
             [OF e c e hr, where d = 0 and c = 0 and r = 1 and s' = ?s' and bs = "[Do_Next 1]"
                and u = ?u2 and q = "Some 1" and h' = ?h' and bs' = "[Do_Head_Next 1]"
                and v = ?v2 and k = 0]
  from T [THEN conjunct1] have w1: "count_list (calls three_cells) (Open 0) = 1" by simp
  from T [THEN conjunct2, THEN conjunct1, rule_format, OF n]
  have w2: "Next ?s' 0 = Some (Inr (1, ?s'))" .
  from T [THEN conjunct2, THEN conjunct2, THEN conjunct1, rule_format, OF n bs nd]
  have w3: "Next ?u 0 = Some (Inr (1, ?u))" .
  from T [THEN conjunct2, THEN conjunct2, THEN conjunct2, THEN conjunct2, THEN conjunct1,
          rule_format, OF hn]
  have w4: "Head_Next ?h' 0 = Inr (Some 1, ?h')" .
  from T [THEN conjunct2, THEN conjunct2, THEN conjunct2, THEN conjunct2, THEN conjunct2,
          THEN conjunct1, rule_format, OF hn bs' hv]
  have w5: "Head_Next ?v 0 = Inr (Some 1, ?v)" .
  from T2 [THEN conjunct2, THEN conjunct2, THEN conjunct2, THEN conjunct2, THEN conjunct2,
          THEN conjunct2, THEN conjunct1, rule_format, OF n bs2]
  obtain r' where r': "Next ?u2 0 = Some (Inr (r', ?u2))" "1 \<le> r'" "r' < length (heap ?u2)"
    "\<not> drained (heap ?u2 ! r')" by blast
  have l3: "length (heap ?u2) = 3" by (simp add: mark_drained_def three_cells_val)
  have d1: "drained (heap ?u2 ! 1)" by (simp add: mark_drained_def three_cells_val)
  from r'(2,3) l3 have "r' = 1 \<or> r' = 2" by arith
  with r'(4) d1 have "r' = 2" by auto
  with r'(1) have w7: "Next ?u2 0 = Some (Inr (2, ?u2))" by simp
  from T2 [THEN conjunct2, THEN conjunct2, THEN conjunct2, THEN conjunct2, THEN conjunct2,
          THEN conjunct2, THEN conjunct2, rule_format, OF hn hd0 le0 hb2]
  obtain k1 k2 where k: "(0::nat) < k1" "head_cell ?v2 = Some k2" "Head_Next ?v2 0 = Inr (Some k2, ?v2)" by blast
  from k(2) have "k2 = 2" by simp
  with k(3) have w8: "Head_Next ?v2 0 = Inr (Some 2, ?v2)" by simp
  show ?thesis using e c hr w1 n w2 bs nd w3 hn w4 bs' hv w5 bs2 w7 hd0 hb2 w8 by (intro conjI)
qed

text \<open>
  C6 as stated fails once the cell obtained has been advanced past: in a chain of three
  cells, \<^verbatim>\<open>Next\<close> on the first cell returns the second; after \<^verbatim>\<open>Next\<close> on the second cell
  (which returns the third), \<^verbatim>\<open>Next\<close> on the first cell returns the third.
\<close>

theorem C6_counterexample:
  "Next three_cells 0 = Some (Inr (1, mark_drained three_cells 0)) \<and>
   Next (mark_drained three_cells 0) 1
     = Some (Inr (2, mark_drained (mark_drained three_cells 0) 1)) \<and>
   Next (mark_drained (mark_drained three_cells 0) 1) 0
     = Some (Inr (2, mark_drained (mark_drained three_cells 0) 1)) \<and>
   (1::nat) \<noteq> 2"
proof -
  have 1: "Next three_cells 0 = Some (Inr (1, mark_drained three_cells 0))"
    by (rule Next_three_cells_0)
  have 2: "Next (mark_drained three_cells 0) 1
            = Some (Inr (2, mark_drained (mark_drained three_cells 0) 1))"
    by (subst Next.simps)
       (simp add: Next_mark_def cell_at_def mark_drained_def three_cells_val)
  have 3: "Next (mark_drained (mark_drained three_cells 0) 1) 0
            = Next (mark_drained (mark_drained three_cells 0) 1) 1"
    by (subst Next.simps)
       (simp add: Next_mark_def cell_at_def mark_drained_def three_cells_val)
  have 4: "Next (mark_drained (mark_drained three_cells 0) 1) 1
            = Some (Inr (2, mark_drained (mark_drained three_cells 0) 1))"
    by (subst Next.simps)
       (simp add: Next_mark_def cell_at_def mark_drained_def three_cells_val)
  from 1 2 3 4 show ?thesis by simp
qed

subsection \<open>The actor of the README\<close>

lemma NewMyActor_val:
  "(NewMyActor :: panic + 'm MyActor) =
     Inr \<lparr>cells = NewChanCellTail,
          chans = [0 \<mapsto> \<lparr>buffer = [], capacity = 16, closed = False\<rparr>],
          inner_cell = 0, msgChan = 0, loop_msgChan = 0, loop_msgCell = Some 0,
          loop_at_Next = False, enqueued = [], received = []\<rparr>"
  by (simp add: NewMyActor_def NewChanCellTail_def make_chan_def DefaultChanLength_def
        Head_WithCell_def)

lemma actor_inv_New:
  assumes "NewMyActor = Inr a"
  shows "actor_inv a"
proof -
  from assms have a: "a = \<lparr>cells = NewChanCellTail,
          chans = [0 \<mapsto> \<lparr>buffer = [], capacity = 16, closed = False\<rparr>],
          inner_cell = 0, msgChan = 0, loop_msgChan = 0, loop_msgCell = Some 0,
          loop_at_Next = False, enqueued = [], received = []\<rparr>"
    by (simp add: NewMyActor_val)
  have l: "length (heap NewChanCellTail) = 1" "head_cell NewChanCellTail = Some 0"
    by (simp_all add: NewChanCellTail_def)
  have "inv_chans a" by (auto simp: a l inv_chans_def split: if_splits)
  moreover have "inv_loop a" by (simp add: a l inv_loop_def)
  moreover have "inv_fifo a" by (simp add: a l inv_fifo_def pending_def in_chan_def)
  ultimately show ?thesis using chain_inv_New by (simp add: actor_inv_def a)
qed

subsection \<open>pending\<close>

lemma concat_in_chan_cong:
  "(\<And>c. c \<in> set cs \<Longrightarrow> in_chan chs' c = in_chan chs c) \<Longrightarrow>
     concat (map (in_chan chs') cs) = concat (map (in_chan chs) cs)"
  by (induction cs) simp_all

lemma pending_send:
  assumes "h \<le> t" "chs t = Some ch"
  shows "concat (map (in_chan (chs(t \<mapsto> ch\<lparr>buffer := buffer ch @ [m]\<rparr>))) [h..<Suc t])
       = concat (map (in_chan chs) [h..<Suc t]) @ [(t, m)]"
proof -
  have "concat (map (in_chan (chs(t \<mapsto> ch\<lparr>buffer := buffer ch @ [m]\<rparr>))) [h..<t])
        = concat (map (in_chan chs) [h..<t])"
    by (rule concat_in_chan_cong) (simp add: in_chan_def)
  then show ?thesis using assms by (simp add: in_chan_def)
qed

lemma pending_grow:
  assumes "h \<le> n" "r < n"  "chs r = Some ch"
  shows "concat (map (in_chan (chs(n \<mapsto> \<lparr>buffer = [], capacity = k, closed = False\<rparr>,
                                    r \<mapsto> ch\<lparr>closed := True\<rparr>))) [h..<Suc n])
       = concat (map (in_chan chs) [h..<n])"
proof -
  have "concat (map (in_chan (chs(n \<mapsto> \<lparr>buffer = [], capacity = k, closed = False\<rparr>,
                                    r \<mapsto> ch\<lparr>closed := True\<rparr>))) [h..<n])
        = concat (map (in_chan chs) [h..<n])"
    using assms by (intro concat_in_chan_cong) (auto simp: in_chan_def)
  then show ?thesis using assms by (simp add: in_chan_def)
qed

lemma pending_receive:
  assumes "h < n" "chs h = Some ch" "buffer ch = m # rest"
  shows "concat (map (in_chan chs) [h..<n])
       = (h, m) # concat (map (in_chan (chs(h \<mapsto> ch\<lparr>buffer := rest\<rparr>))) [h..<n])"
proof -
  have "concat (map (in_chan (chs(h \<mapsto> ch\<lparr>buffer := rest\<rparr>))) [Suc h..<n])
        = concat (map (in_chan chs) [Suc h..<n])"
    by (rule concat_in_chan_cong) (simp add: in_chan_def)
  then show ?thesis using assms by (simp add: in_chan_def upt_conv_Cons)
qed

lemma pending_advance:
  assumes "Suc h < n" "chs h = Some ch" "buffer ch = []"
  shows "concat (map (in_chan chs) [h..<n]) = concat (map (in_chan chs) [Suc h..<n])"
  using assms by (simp add: in_chan_def upt_conv_Cons)


subsection \<open>The sections keep the invariant\<close>

lemma inv_fifoD:
  assumes "inv_fifo a"
  shows "enqueued a = received a @ pending a"
    and "sorted (map fst (enqueued a))"
    and "\<forall>x \<in> set (enqueued a). fst x < length (heap (cells a))"
  using assms unfolding inv_fifo_def by blast+

lemma inv_fifoI:
  assumes "enqueued a = received a @ pending a"
    and "sorted (map fst (enqueued a))"
    and "\<forall>x \<in> set (enqueued a). fst x < length (heap (cells a))"
  shows "inv_fifo a"
  using assms unfolding inv_fifo_def by blast

lemma inv_last_chan:
  assumes inv: "actor_inv a" and t: "tail_cell (cells a) = Some t"
  shows "t = inner_cell a \<and> Suc t = length (heap (cells a)) \<and> loop_msgChan a \<le> t \<and>
         (\<exists>ch. chans a t = Some ch \<and> \<not> closed ch)"
proof -
  from inv have ci: "chain_inv (cells a)" and ic: "inv_chans a" and il: "inv_loop a"
    by (simp_all add: actor_inv_def)
  from ci obtain k where k: "length (heap (cells a)) = Suc k"
    using len_pred by (auto simp: chain_inv_def inv_links_def)
  from ci t k have tk: "t = k" by (simp add: chain_inv_def inv_tail_def)
  from ic k have "chans a k \<noteq> None" by (simp add: inv_chans_def)
  then obtain ch where ch: "chans a k = Some ch" by auto
  with ic k have "\<not> closed ch" by (auto simp: inv_chans_def)
  moreover from ic k have "inner_cell a = k" by (simp add: inv_chans_def)
  moreover from il k have "loop_msgChan a \<le> k" by (simp add: inv_loop_def)
  ultimately show ?thesis using tk k ch by simp
qed

lemma attempt_cases:
  assumes inv: "actor_inv a"
  shows "enqueue_attempt msg a = Inr a \<or>
         (\<exists>t ch. tail_cell (cells a) = Some t \<and> chans a t = Some ch \<and> \<not> closed ch \<and>
            Suc t = length (heap (cells a)) \<and> loop_msgChan a \<le> t \<and>
            enqueue_attempt msg a =
              Inr (a\<lparr>chans := (chans a)(t \<mapsto> ch\<lparr>buffer := buffer ch @ [msg]\<rparr>),
                     enqueued := enqueued a @ [(t, msg)]\<rparr>))"
proof (cases "tail_cell (cells a)")
  case None
  then show ?thesis by (simp add: enqueue_attempt_def)
next
  case (Some t)
  from inv_last_chan [OF inv Some] obtain ch where
    *: "t = inner_cell a" "Suc t = length (heap (cells a))" "loop_msgChan a \<le> t"
       "chans a t = Some ch" "\<not> closed ch" by blast
  show ?thesis
  proof (cases "length (buffer ch) < capacity ch")
    case True
    with Some * have "enqueue_attempt msg a =
              Inr (a\<lparr>chans := (chans a)(t \<mapsto> ch\<lparr>buffer := buffer ch @ [msg]\<rparr>),
                     enqueued := enqueued a @ [(t, msg)]\<rparr>)"
      by (simp add: enqueue_attempt_def)
    with Some * show ?thesis by blast
  next
    case False
    with Some * have "enqueue_attempt msg a = Inr a" by (simp add: enqueue_attempt_def)
    then show ?thesis ..
  qed
qed

lemma actor_inv_attempt:
  assumes inv: "actor_inv a" and st: "enqueue_attempt msg a = Inr a'"
  shows "actor_inv a'"
proof -
  from attempt_cases [OF inv, of msg] st consider "a' = a"
    | t ch where "tail_cell (cells a) = Some t" "chans a t = Some ch" "\<not> closed ch"
        "Suc t = length (heap (cells a))" "loop_msgChan a \<le> t"
        "a' = a\<lparr>chans := (chans a)(t \<mapsto> ch\<lparr>buffer := buffer ch @ [msg]\<rparr>),
                 enqueued := enqueued a @ [(t, msg)]\<rparr>"
    by auto
  then show ?thesis
  proof cases
    case 1
    with inv show ?thesis by simp
  next
    case 2
    from inv have ci: "chain_inv (cells a)" and ic: "inv_chans a" and il: "inv_loop a"
      and fi: "inv_fifo a" by (simp_all add: actor_inv_def)
    have "inv_chans a'" using ic 2(2,3,4) by (auto simp: inv_chans_def 2(6))
    moreover have "inv_loop a'"
    proof -
      have "loop_at_Next a \<longrightarrow> loop_msgChan a \<noteq> t"
        using il 2(2,3) by (auto simp: inv_loop_def)
      with il 2(5) show ?thesis by (auto simp: inv_loop_def 2(6))
    qed
    moreover have "inv_fifo a'"
    proof -
      have "pending a' = pending a @ [(t, msg)]"
        using pending_send [of "loop_msgChan a" t "chans a" ch msg, OF 2(5) 2(2)] 2(4)
        by (simp add: pending_def 2(6))
      with inv_fifoD(1) [OF fi] have f1: "enqueued a' = received a' @ pending a'"
        by (simp add: 2(6))
      note b = inv_fifoD(3) [OF fi] and so = inv_fifoD(2) [OF fi]
      from b 2(4) have le: "\<forall>x \<in> set (enqueued a). fst x \<le> t" by auto
      from so le have f2: "sorted (map fst (enqueued a'))"
        by (simp add: 2(6) sorted_append)
      from b 2(4) have f3: "\<forall>x \<in> set (enqueued a'). fst x < length (heap (cells a'))"
        by (auto simp: 2(6))
      from f1 f2 f3 show ?thesis by (rule inv_fifoI)
    qed
    ultimately show ?thesis using ci by (simp add: actor_inv_def 2(6))
  qed
qed

lemma attempt_no_panic: "actor_inv a \<Longrightarrow> enqueue_attempt msg a \<noteq> Inl p"
  using attempt_cases [of a msg] by auto


lemma expand_section_cases:
  assumes inv: "actor_inv a" and st: "on_cells (\<lambda>s. Inr (expand s r)) a = Inr a'"
  shows "a' = a \<or>
         (\<exists>ch k. tail_cell (cells a) = Some r \<and> chans a r = Some ch \<and> \<not> closed ch \<and>
            Suc r = length (heap (cells a)) \<and> loop_msgChan a \<le> r \<and>
            a' = a\<lparr>cells := expand (cells a) r,
                   chans := (chans a)(Suc r \<mapsto> \<lparr>buffer = [], capacity = k, closed = False\<rparr>,
                                      r \<mapsto> ch\<lparr>closed := True\<rparr>),
                   inner_cell := Suc r\<rparr>)"
proof (cases "tail_cell (cells a) = Some r")
  case False
  with st show ?thesis by (simp add: on_cells_def expand_noop)
next
  case True
  from inv_last_chan [OF inv True] obtain ch where
    *: "r = inner_cell a" "Suc r = length (heap (cells a))" "loop_msgChan a \<le> r"
       "chans a r = Some ch" "\<not> closed ch" by blast
  let ?n = "tail_n (cells a) * 2"
  have c: "calls (expand (cells a) r) = calls (cells a) @ [Init ?n (Suc r), Close r]"
    using True * by (simp add: expand_grows)
  show ?thesis
  proof (cases "sint ?n < 0")
    case True
    with st c show ?thesis by (simp add: on_cells_def make_chan_def)
  next
    case False
    with c * have "on_cells (\<lambda>s. Inr (expand s r)) a =
         Inr (a\<lparr>cells := expand (cells a) r,
                chans := (chans a)(Suc r \<mapsto> \<lparr>buffer = [], capacity = nat (sint ?n), closed = False\<rparr>,
                                   r \<mapsto> ch\<lparr>closed := True\<rparr>),
                inner_cell := Suc r\<rparr>)"
      by (simp add: on_cells_def make_chan_def)
    with st have "a' = a\<lparr>cells := expand (cells a) r,
                   chans := (chans a)(Suc r \<mapsto> \<lparr>buffer = [], capacity = nat (sint ?n), closed = False\<rparr>,
                                      r \<mapsto> ch\<lparr>closed := True\<rparr>),
                   inner_cell := Suc r\<rparr>"
      by simp
    with True * show ?thesis by blast
  qed
qed

lemma actor_inv_expand:
  assumes inv: "actor_inv a" and st: "on_cells (\<lambda>s. Inr (expand s r)) a = Inr a'"
  shows "actor_inv a'"
proof -
  from expand_section_cases [OF inv st] consider "a' = a"
    | ch k where "tail_cell (cells a) = Some r" "chans a r = Some ch" "\<not> closed ch"
        "Suc r = length (heap (cells a))" "loop_msgChan a \<le> r"
        "a' = a\<lparr>cells := expand (cells a) r,
                   chans := (chans a)(Suc r \<mapsto> \<lparr>buffer = [], capacity = k, closed = False\<rparr>,
                                      r \<mapsto> ch\<lparr>closed := True\<rparr>),
                   inner_cell := Suc r\<rparr>"
    by auto
  then show ?thesis
  proof cases
    case 1
    with inv show ?thesis by simp
  next
    case 2
    from inv have ci: "chain_inv (cells a)" and ic: "inv_chans a" and il: "inv_loop a"
      and fi: "inv_fifo a" by (simp_all add: actor_inv_def)
    have len: "length (heap (cells a')) = Suc (Suc r)"
      using 2(1,4) by (simp add: 2(6) expand_grows)
    have hd: "head_cell (cells a') = head_cell (cells a)"
      using 2(1) by (simp add: 2(6) expand_grows)
    have "chain_inv (cells a')" using ci by (simp add: 2(6) chain_inv_expand)
    moreover have "inv_chans a'"
      unfolding inv_chans_def len
      using ic 2(2,3,4) by (auto simp: inv_chans_def 2(6))
    moreover have "inv_loop a'"
      unfolding inv_loop_def len hd
      using il 2(2,4,5) by (auto simp: inv_loop_def 2(6))
    moreover have "inv_fifo a'"
    proof -
      have r: "r < Suc r" by simp
      have h: "loop_msgChan a \<le> Suc r" using 2(5) by simp
      have p': "pending a' =
          concat (map (in_chan ((chans a)(Suc r \<mapsto> \<lparr>buffer = [], capacity = k, closed = False\<rparr>,
                                          r \<mapsto> ch\<lparr>closed := True\<rparr>)))
                   [loop_msgChan a..<Suc (Suc r)])"
        unfolding pending_def len by (simp add: 2(6) del: upt_Suc)
      have p: "pending a = concat (map (in_chan (chans a)) [loop_msgChan a..<Suc r])"
        unfolding pending_def by (simp only: 2(4))
      from pending_grow [of "loop_msgChan a" "Suc r" r "chans a" ch k, OF h r 2(2)] p p'
      have "pending a' = pending a" by (simp only:)
      with inv_fifoD(1) [OF fi] have f1: "enqueued a' = received a' @ pending a'"
        by (simp add: 2(6))
      from inv_fifoD(2) [OF fi] have f2: "sorted (map fst (enqueued a'))" by (simp add: 2(6))
      from inv_fifoD(3) [OF fi] 2(4) have "\<forall>x \<in> set (enqueued a). fst x < Suc (Suc r)" by auto
      then have f3: "\<forall>x \<in> set (enqueued a'). fst x < length (heap (cells a'))"
        unfolding len by (simp add: 2(6))
      from f1 f2 f3 show ?thesis by (rule inv_fifoI)
    qed
    ultimately show ?thesis by (simp add: actor_inv_def)
  qed
qed

lemma actor_inv_receive:
  assumes inv: "actor_inv a" and st: "loop_receive a = Inr a'"
  shows "actor_inv a'"
proof -
  from inv have ci: "chain_inv (cells a)" and ic: "inv_chans a" and il: "inv_loop a"
    and fi: "inv_fifo a" by (simp_all add: actor_inv_def)
  let ?h = "loop_msgChan a"
  from il have hl: "?h < length (heap (cells a))" by (simp add: inv_loop_def)
  with ic have "chans a ?h \<noteq> None" by (simp add: inv_chans_def)
  then obtain ch where ch: "chans a ?h = Some ch" by auto
  show ?thesis
  proof (cases "loop_at_Next a")
    case True
    with st inv show ?thesis by (simp add: loop_receive_def)
  next
    case False
    show ?thesis
    proof (cases "buffer ch")
      case Nil
      show ?thesis
      proof (cases "closed ch")
        case True
        with st False ch Nil have a': "a' = a\<lparr>loop_at_Next := True\<rparr>"
          by (simp add: loop_receive_def)
        have "inv_chans a'" using ic by (simp add: inv_chans_def a')
        moreover have "inv_loop a'" using il ch Nil True by (simp add: inv_loop_def a')
        moreover have "inv_fifo a'"
        proof -
          have "pending a' = pending a" by (simp add: pending_def a')
          with inv_fifoD(1) [OF fi] have f1: "enqueued a' = received a' @ pending a'"
            by (simp add: a')
          from inv_fifoD(2) [OF fi] have f2: "sorted (map fst (enqueued a'))" by (simp add: a')
          from inv_fifoD(3) [OF fi]
          have f3: "\<forall>x \<in> set (enqueued a'). fst x < length (heap (cells a'))" by (simp add: a')
          from f1 f2 f3 show ?thesis by (rule inv_fifoI)
        qed
        ultimately show ?thesis using ci by (simp add: actor_inv_def a')
      next
        case F: False
        with st False ch Nil inv show ?thesis by (simp add: loop_receive_def)
      qed
    next
      case (Cons m rest)
      with st False ch have a': "a' = a\<lparr>chans := (chans a)(?h \<mapsto> ch\<lparr>buffer := rest\<rparr>),
                            received := received a @ [(?h, m)]\<rparr>"
        by (simp add: loop_receive_def)
      have "inv_chans a'" using ic ch by (auto simp: inv_chans_def a')
      moreover have "inv_loop a'" using il False by (auto simp: inv_loop_def a')
      moreover have "inv_fifo a'"
      proof -
        have "pending a = (?h, m) # pending a'"
          using pending_receive [of ?h "length (heap (cells a))" "chans a" ch m rest, OF hl ch Cons]
          by (simp add: pending_def a')
        with inv_fifoD(1) [OF fi] have f1: "enqueued a' = received a' @ pending a'"
          by (simp add: a')
        from inv_fifoD(2) [OF fi] have f2: "sorted (map fst (enqueued a'))" by (simp add: a')
        from inv_fifoD(3) [OF fi]
        have f3: "\<forall>x \<in> set (enqueued a'). fst x < length (heap (cells a'))" by (simp add: a')
        from f1 f2 f3 show ?thesis by (rule inv_fifoI)
      qed
      ultimately show ?thesis using ci by (simp add: actor_inv_def a')
    qed
  qed
qed


lemma actor_inv_cells_only:
  assumes inv: "actor_inv a" and ci: "chain_inv s'"
    and h: "heap s' = heap (cells a)" "head_cell s' = head_cell (cells a)"
  shows "actor_inv (a\<lparr>cells := s'\<rparr>)"
proof -
  from inv have ic: "inv_chans a" and il: "inv_loop a" and fi: "inv_fifo a"
    by (simp_all add: actor_inv_def)
  have "inv_chans (a\<lparr>cells := s'\<rparr>)" using ic h by (simp add: inv_chans_def)
  moreover have "inv_loop (a\<lparr>cells := s'\<rparr>)" using il h by (simp add: inv_loop_def)
  moreover have "inv_fifo (a\<lparr>cells := s'\<rparr>)"
  proof -
    have "pending (a\<lparr>cells := s'\<rparr>) = pending a" using h by (simp add: pending_def)
    with inv_fifoD(1) [OF fi]
    have f1: "enqueued (a\<lparr>cells := s'\<rparr>) = received (a\<lparr>cells := s'\<rparr>) @ pending (a\<lparr>cells := s'\<rparr>)"
      by simp
    from inv_fifoD(2) [OF fi] have f2: "sorted (map fst (enqueued (a\<lparr>cells := s'\<rparr>)))" by simp
    from inv_fifoD(3) [OF fi] h
    have f3: "\<forall>x \<in> set (enqueued (a\<lparr>cells := s'\<rparr>)). fst x < length (heap (cells (a\<lparr>cells := s'\<rparr>)))"
      by simp
    from f1 f2 f3 show ?thesis by (rule inv_fifoI)
  qed
  ultimately show ?thesis using ci by (simp add: actor_inv_def)
qed

lemma actor_inv_clear:
  assumes inv: "actor_inv a" and st: "on_cells (\<lambda>s. Inr (Terminate_clear s)) a = Inr a'"
  shows "actor_inv a'"
proof -
  from st have a': "a' = a\<lparr>cells := Terminate_clear (cells a)\<rparr>"
    by (simp add: on_cells_def Terminate_clear_def)
  from inv have "chain_inv (cells a)" by (simp add: actor_inv_def)
  then have "chain_inv (Terminate_clear (cells a))" by (rule chain_inv_clear)
  from actor_inv_cells_only [OF inv this] show ?thesis
    by (simp add: a' Terminate_clear_def)
qed

lemma actor_inv_close:
  assumes inv: "actor_inv a" and st: "on_cells Terminate_close a = Inr a'"
  shows "actor_inv a'"
proof -
  from st have a': "a' = a\<lparr>cells := (cells a)\<lparr>Terminated := True\<rparr>\<rparr>"
    and t: "Terminate_close (cells a) = Inr ((cells a)\<lparr>Terminated := True\<rparr>)"
    by (auto simp: on_cells_def Terminate_close_def split: if_splits)
  from inv have "chain_inv (cells a)" by (simp add: actor_inv_def)
  from this t have "chain_inv ((cells a)\<lparr>Terminated := True\<rparr>)" by (rule chain_inv_close)
  from actor_inv_cells_only [OF inv this] show ?thesis by (simp add: a')
qed

lemma loop_inv_New:
  assumes "NewMyActor = Inr a"
  shows "inv_loop_head a \<and> inv_loop_cell a"
proof -
  from assms have a: "a = \<lparr>cells = NewChanCellTail,
          chans = [0 \<mapsto> \<lparr>buffer = [], capacity = 16, closed = False\<rparr>],
          inner_cell = 0, msgChan = 0, loop_msgChan = 0, loop_msgCell = Some 0,
          loop_at_Next = False, enqueued = [], received = []\<rparr>"
    by (simp add: NewMyActor_val)
  show ?thesis
    by (simp add: a inv_loop_head_def inv_loop_cell_def NewChanCellTail_def new_ChanCell_def)
qed

lemma actor_inv_Next:
  assumes inv: "actor_inv a" and ih: "inv_loop_head a" and st: "loop_Next a = Inr a'"
  shows "actor_inv a' \<and> inv_loop_head a'"
proof (cases "loop_at_Next a")
  case False
  with st inv ih show ?thesis by (simp add: loop_Next_def)
next
  case True
  from inv have ci: "chain_inv (cells a)" and ic: "inv_chans a" and il: "inv_loop a"
    and fi: "inv_fifo a" by (simp_all add: actor_inv_def)
  let ?h = "loop_msgChan a"
  let ?s = "cells a"
  from il True obtain ch where ch: "chans a ?h = Some ch" "buffer ch = []" "closed ch"
    by (auto simp: inv_loop_def)
  with ic have sh: "Suc ?h < length (heap ?s)" by (auto simp: inv_chans_def)
  with ci have nx: "nxt (heap ?s ! ?h) = Some (Suc ?h)"
    by (simp add: chain_inv_def inv_links_def)
  from ih have hd: "head_cell ?s = Some ?h" by (simp add: inv_loop_head_def)
  from il have mc: "loop_msgCell a = Some ?h" by (simp add: inv_loop_def)
  let ?s' = "?s\<lparr>head_cell := Some (Suc ?h), calls := calls ?s @ [Open (Suc ?h)]\<rparr>"
  have hn: "Head_Next ?s ?h = Inr (Some (Suc ?h), ?s')"
    using hd nx sh by (simp add: Head_Next_def Head_WithCell_def cell_at_def)
  have "loop_Next a = Inr (a\<lparr>cells := ?s', msgChan := Suc ?h, loop_msgChan := Suc ?h,
                             loop_msgCell := Some (Suc ?h), loop_at_Next := False\<rparr>)"
    using True mc hn by (simp add: loop_Next_def on_cells_def Head_WithCell_def)
  with st have a': "a' = a\<lparr>cells := ?s', msgChan := Suc ?h, loop_msgChan := Suc ?h,
                             loop_msgCell := Some (Suc ?h), loop_at_Next := False\<rparr>"
    by simp
  have "chain_inv (cells a')" using chain_inv_Head_Next [OF ci hn] by (simp add: a')
  moreover have "inv_chans a'" using ic by (simp add: inv_chans_def a')
  moreover have "inv_loop a'"
    using il sh ch by (auto simp: inv_loop_def a' less_Suc_eq)
  moreover have "inv_fifo a'"
  proof -
    have "pending a' = pending a"
      using pending_advance [of ?h "length (heap ?s)" "chans a" ch, OF sh ch(1,2)]
      by (simp add: pending_def a')
    with inv_fifoD(1) [OF fi] have f1: "enqueued a' = received a' @ pending a'"
      by (simp add: a')
    from inv_fifoD(2) [OF fi] have f2: "sorted (map fst (enqueued a'))" by (simp add: a')
    from inv_fifoD(3) [OF fi]
    have f3: "\<forall>x \<in> set (enqueued a'). fst x < length (heap (cells a'))" by (simp add: a')
    from f1 f2 f3 show ?thesis by (rule inv_fifoI)
  qed
  moreover have "inv_loop_head a'" by (simp add: inv_loop_head_def a')
  ultimately show ?thesis by (simp add: actor_inv_def)
qed

text \<open>
  With \<^verbatim>\<open>ChanCell.Next\<close>: when the loop is about to advance, \<^verbatim>\<open>Next\<close> on its cell returns
  the successor, which is not drained, and the loop goes on with the successor.
\<close>

lemma loop_Next_cell_val:
  assumes inv: "actor_inv a" and lc: "inv_loop_cell a" and at: "loop_at_Next a"
  shows "Suc (loop_msgChan a) < length (heap (cells a)) \<and>
         \<not> drained (heap (cells a) ! loop_msgChan a) \<and>
         Next (cells a) (loop_msgChan a)
           = Some (Inr (Suc (loop_msgChan a), mark_drained (cells a) (loop_msgChan a))) \<and>
         loop_Next_cell a =
           Inr (a\<lparr>cells := mark_drained (cells a) (loop_msgChan a),
                  msgChan := Suc (loop_msgChan a), loop_msgChan := Suc (loop_msgChan a),
                  loop_msgCell := Some (Suc (loop_msgChan a)), loop_at_Next := False\<rparr>)"
proof -
  from inv have ci: "chain_inv (cells a)" and ic: "inv_chans a" and il: "inv_loop a"
    by (simp_all add: actor_inv_def)
  let ?h = "loop_msgChan a"
  let ?s = "cells a"
  from il at obtain ch where ch: "chans a ?h = Some ch" "buffer ch = []" "closed ch"
    by (auto simp: inv_loop_def)
  with ic have sh: "Suc ?h < length (heap ?s)" by (auto simp: inv_chans_def)
  from il have mc: "loop_msgCell a = Some ?h" by (simp add: inv_loop_def)
  from lc sh have nd: "\<not> drained (heap ?s ! ?h)" and nd': "\<not> drained (heap ?s ! Suc ?h)"
    by (simp_all add: inv_loop_cell_def)
  let ?s' = "?s\<lparr>heap := (heap ?s)[?h := (heap ?s ! ?h)\<lparr>drained := True\<rparr>],
                 calls := calls ?s @ [Open (Suc ?h)]\<rparr>"
  from nd have md: "mark_drained ?s ?h = ?s'" by (simp add: mark_drained_def)
  from Next_succeeds [OF ci sh] obtain d where
    d: "Next ?s ?h = Some (Inr (d, mark_drained ?s ?h))" "?h < d"
       "\<forall>e. ?h \<le> e \<and> e < d \<longrightarrow> drained (heap (mark_drained ?s ?h) ! e)" by blast
  have "d = Suc ?h"
  proof (rule ccontr)
    assume "d \<noteq> Suc ?h"
    with d(2) have "?h \<le> Suc ?h \<and> Suc ?h < d" by simp
    with d(3) have "drained (heap (mark_drained ?s ?h) ! Suc ?h)" by blast
    with nd' show False by (simp add: md)
  qed
  with d(1) have n: "Next ?s ?h = Some (Inr (Suc ?h, mark_drained ?s ?h))" by simp
  have "loop_Next_cell a =
           Inr (a\<lparr>cells := ?s', msgChan := Suc ?h, loop_msgChan := Suc ?h,
                  loop_msgCell := Some (Suc ?h), loop_at_Next := False\<rparr>)"
    using at mc n by (simp add: loop_Next_cell_def on_cells_def md)
  with sh nd n show ?thesis by (simp add: md)
qed

lemma actor_inv_Next_cell:
  assumes inv: "actor_inv a" and lc: "inv_loop_cell a" and st: "loop_Next_cell a = Inr a'"
  shows "actor_inv a' \<and> inv_loop_cell a'"
proof (cases "loop_at_Next a")
  case False
  with st inv lc show ?thesis by (simp add: loop_Next_cell_def)
next
  case True
  from inv have ci: "chain_inv (cells a)" and ic: "inv_chans a" and il: "inv_loop a"
    and fi: "inv_fifo a" by (simp_all add: actor_inv_def)
  let ?h = "loop_msgChan a"
  let ?s = "cells a"
  from il True obtain ch where ch: "chans a ?h = Some ch" "buffer ch = []" "closed ch"
    by (auto simp: inv_loop_def)
  from loop_Next_cell_val [OF inv lc True] have sh: "Suc ?h < length (heap ?s)"
    and nd: "\<not> drained (heap ?s ! ?h)"
    and v: "loop_Next_cell a =
           Inr (a\<lparr>cells := mark_drained ?s ?h, msgChan := Suc ?h, loop_msgChan := Suc ?h,
                  loop_msgCell := Some (Suc ?h), loop_at_Next := False\<rparr>)" by blast+
  from v st have a': "a' = a\<lparr>cells := mark_drained ?s ?h, msgChan := Suc ?h,
                 loop_msgChan := Suc ?h, loop_msgCell := Some (Suc ?h), loop_at_Next := False\<rparr>"
    by simp
  from nd have hp: "heap (mark_drained ?s ?h) = (heap ?s)[?h := (heap ?s ! ?h)\<lparr>drained := True\<rparr>]"
    by (simp add: mark_drained_def)
  then have len: "length (heap (mark_drained ?s ?h)) = length (heap ?s)" by simp
  have "chain_inv (cells a')"
    using chain_inv_Next_mark [OF ci Next_mark_inv [OF ci sh]] by (simp add: a')
  moreover have "inv_chans a'" using ic by (simp add: inv_chans_def a' len)
  moreover have "inv_loop a'"
    using il sh ch by (auto simp: inv_loop_def a' len less_Suc_eq)
  moreover have "inv_fifo a'"
  proof -
    have "pending a' = pending a"
      using pending_advance [of ?h "length (heap ?s)" "chans a" ch, OF sh ch(1,2)]
      by (simp add: pending_def a' len)
    with inv_fifoD(1) [OF fi] have f1: "enqueued a' = received a' @ pending a'"
      by (simp add: a')
    from inv_fifoD(2) [OF fi] have f2: "sorted (map fst (enqueued a'))" by (simp add: a')
    from inv_fifoD(3) [OF fi]
    have f3: "\<forall>x \<in> set (enqueued a'). fst x < length (heap (cells a'))"
      by (simp add: a' len)
    from f1 f2 f3 show ?thesis by (rule inv_fifoI)
  qed
  moreover have "inv_loop_cell a'"
    unfolding inv_loop_cell_def
  proof (intro allI impI)
    fix e assume "e < length (heap (cells a'))"
    then have e: "e < length (heap ?s)" by (simp add: a' len)
    show "drained (heap (cells a') ! e) = (e < loop_msgChan a')"
    proof (cases "e = ?h")
      case True
      with e show ?thesis by (simp add: a' hp)
    next
      case False
      with lc e show ?thesis by (auto simp: a' hp inv_loop_cell_def)
    qed
  qed
  ultimately show ?thesis by (simp add: actor_inv_def)
qed

text \<open>The other sections leave the cell of the loop, the head and the flags as they are.\<close>

lemma callbacks_keep:
  "callbacks es a = Inr a' \<Longrightarrow> cells a' = cells a \<and> loop_msgChan a' = loop_msgChan a"
proof (induction es arbitrary: a)
  case Nil
  then show ?case by simp
next
  case (Cons e es)
  from Cons.prems obtain a1 where a1: "callback e a = Inr a1" and r: "callbacks es a1 = Inr a'"
    by (cases "callback e a") auto
  from a1 have "cells a1 = cells a \<and> loop_msgChan a1 = loop_msgChan a"
    by (cases e) (auto split: sum.splits option.splits if_splits)
  with Cons.IH [OF r] show ?case by simp
qed

lemma on_cells_keep:
  assumes "on_cells f a = Inr a'"
  shows "f (cells a) = Inr (cells a') \<and> loop_msgChan a' = loop_msgChan a"
proof -
  from assms obtain s' where s': "f (cells a) = Inr s'"
    and c: "callbacks (drop (length (calls (cells a))) (calls s')) (a\<lparr>cells := s'\<rparr>) = Inr a'"
    by (cases "f (cells a)") (auto simp: on_cells_def)
  from callbacks_keep [OF c] s' show ?thesis by simp
qed

lemma section_keeps_loop:
  assumes st: "run_section x a = Inr a'" and x: "x \<noteq> Loop_Next" "x \<noteq> Loop_Next_cell"
  shows "loop_msgChan a' = loop_msgChan a \<and> head_cell (cells a') = head_cell (cells a) \<and>
         length (heap (cells a)) \<le> length (heap (cells a')) \<and>
         (\<forall>e < length (heap (cells a')). drained (heap (cells a') ! e) =
              (e < length (heap (cells a)) \<and> drained (heap (cells a) ! e)))"
proof (cases x)
  case (Enqueue_attempt m)
  with st have "cells a' = cells a \<and> loop_msgChan a' = loop_msgChan a"
    by (auto simp: enqueue_attempt_def split: option.splits if_splits)
  then show ?thesis by auto
next
  case (Enqueue_expand r)
  with st have "on_cells (\<lambda>s. Inr (expand s r)) a = Inr a'" by simp
  from on_cells_keep [OF this] have c: "cells a' = expand (cells a) r"
    and l: "loop_msgChan a' = loop_msgChan a" by simp_all
  show ?thesis
  proof (cases "tail_cell (cells a) = Some r")
    case False
    with c l show ?thesis by (auto simp: expand_noop)
  next
    case True
    let ?hp = "heap (cells a)"
    from True have h: "heap (cells a') = ?hp[r := (?hp ! r)\<lparr>nxt := Some (length ?hp)\<rparr>] @ [new_ChanCell]"
      and hd: "head_cell (cells a') = head_cell (cells a)"
      by (simp_all add: c expand_grows)
    have "drained (heap (cells a') ! e) = (e < length ?hp \<and> drained (?hp ! e))"
      if "e < length (heap (cells a'))" for e
    proof (cases "e < length ?hp")
      case True
      then show ?thesis by (simp add: h nth_append drained_upd_nxt)
    next
      case False
      with that have "e = length ?hp" by (simp add: h)
      then show ?thesis by (simp add: h nth_append new_ChanCell_def)
    qed
    with l hd show ?thesis by (simp add: h)
  qed
next
  case Loop_receive
  with st have "cells a' = cells a \<and> loop_msgChan a' = loop_msgChan a"
    by (auto simp: loop_receive_def split: option.splits if_splits list.splits)
  then show ?thesis by auto
next
  case Loop_Next
  with x show ?thesis by simp
next
  case Loop_Next_cell
  with x show ?thesis by simp
next
  case Terminate_clear_section
  with st have "on_cells (\<lambda>s. Inr (Terminate_clear s)) a = Inr a'" by simp
  from on_cells_keep [OF this] have "cells a' = Terminate_clear (cells a)"
    and l: "loop_msgChan a' = loop_msgChan a" by simp_all
  then show ?thesis by (simp add: Terminate_clear_def)
next
  case Terminate_close_section
  with st have "on_cells Terminate_close a = Inr a'" by simp
  from on_cells_keep [OF this] have t: "Terminate_close (cells a) = Inr (cells a')"
    and l: "loop_msgChan a' = loop_msgChan a" by simp_all
  from t have "cells a' = (cells a)\<lparr>Terminated := True\<rparr>"
    by (auto simp: Terminate_close_def split: if_splits)
  then have "heap (cells a') = heap (cells a) \<and> head_cell (cells a') = head_cell (cells a)"
    by simp
  with l show ?thesis by auto
qed

lemma actor_inv_other:
  "actor_inv a \<Longrightarrow> x \<noteq> Loop_Next \<Longrightarrow> x \<noteq> Loop_Next_cell \<Longrightarrow> run_section x a = Inr a' \<Longrightarrow>
     actor_inv a'"
  by (cases x)
     (auto intro: actor_inv_attempt actor_inv_expand actor_inv_receive
        actor_inv_clear actor_inv_close)

lemma actor_inv_section_head:
  assumes inv: "actor_inv a" and ih: "inv_loop_head a" and x: "with_ChanCellHead x"
    and st: "run_section x a = Inr a'"
  shows "actor_inv a' \<and> inv_loop_head a'"
proof (cases "x = Loop_Next")
  case True
  with st have "loop_Next a = Inr a'" by simp
  with inv ih show ?thesis by (rule actor_inv_Next)
next
  case False
  from x have nc: "x \<noteq> Loop_Next_cell" by auto
  from inv False nc st have "actor_inv a'" by (rule actor_inv_other)
  moreover from section_keeps_loop [OF st False nc] ih have "inv_loop_head a'"
    by (simp add: inv_loop_head_def)
  ultimately show ?thesis ..
qed

lemma actor_inv_section_cell:
  assumes inv: "actor_inv a" and lc: "inv_loop_cell a" and x: "with_ChanCell_Next x"
    and st: "run_section x a = Inr a'"
  shows "actor_inv a' \<and> inv_loop_cell a'"
proof (cases "x = Loop_Next_cell")
  case True
  with st have "loop_Next_cell a = Inr a'" by simp
  with inv lc show ?thesis by (rule actor_inv_Next_cell)
next
  case False
  from x have nh: "x \<noteq> Loop_Next" by auto
  from inv nh False st have "actor_inv a'" by (rule actor_inv_other)
  moreover have "inv_loop_cell a'"
    unfolding inv_loop_cell_def
  proof (intro allI impI)
    fix e assume e: "e < length (heap (cells a'))"
    from inv have "loop_msgChan a < length (heap (cells a))"
      by (simp add: actor_inv_def inv_loop_def)
    with section_keeps_loop [OF st nh False] lc e
    show "drained (heap (cells a') ! e) = (e < loop_msgChan a')"
      by (auto simp: inv_loop_cell_def)
  qed
  ultimately show ?thesis ..
qed

lemma actor_inv_run_head:
  "actor_inv a \<Longrightarrow> inv_loop_head a \<Longrightarrow> list_all with_ChanCellHead xs \<Longrightarrow> run xs a = Inr a' \<Longrightarrow>
     actor_inv a' \<and> inv_loop_head a'"
proof (induction xs arbitrary: a)
  case Nil
  then show ?case by simp
next
  case (Cons x xs)
  from Cons.prems(4) obtain a1 where a1: "run_section x a = Inr a1" and r: "run xs a1 = Inr a'"
    by (cases "run_section x a") auto
  from Cons.prems(3) have x: "with_ChanCellHead x" and xs: "list_all with_ChanCellHead xs"
    by simp_all
  from actor_inv_section_head [OF Cons.prems(1,2) x a1]
  have "actor_inv a1" "inv_loop_head a1" by simp_all
  from this xs r show ?case by (rule Cons.IH)
qed

lemma actor_inv_run_cell:
  "actor_inv a \<Longrightarrow> inv_loop_cell a \<Longrightarrow> list_all with_ChanCell_Next xs \<Longrightarrow> run xs a = Inr a' \<Longrightarrow>
     actor_inv a' \<and> inv_loop_cell a'"
proof (induction xs arbitrary: a)
  case Nil
  then show ?case by simp
next
  case (Cons x xs)
  from Cons.prems(4) obtain a1 where a1: "run_section x a = Inr a1" and r: "run xs a1 = Inr a'"
    by (cases "run_section x a") auto
  from Cons.prems(3) have x: "with_ChanCell_Next x" and xs: "list_all with_ChanCell_Next xs"
    by simp_all
  from actor_inv_section_cell [OF Cons.prems(1,2) x a1]
  have "actor_inv a1" "inv_loop_cell a1" by simp_all
  from this xs r show ?case by (rule Cons.IH)
qed

lemma actor_inv_run:
  assumes "NewMyActor = Inr a0" and "run xs a0 = Inr a"
    and "list_all with_ChanCellHead xs \<or> list_all with_ChanCell_Next xs"
  shows "actor_inv a"
proof -
  from assms(1) have inv0: "actor_inv a0" by (rule actor_inv_New)
  note l0 = loop_inv_New [OF assms(1)]
  from assms(3) show ?thesis
  proof
    assume "list_all with_ChanCellHead xs"
    with actor_inv_run_head [OF inv0 l0 [THEN conjunct1] _ assms(2)] show ?thesis by simp
  next
    assume "list_all with_ChanCell_Next xs"
    with actor_inv_run_cell [OF inv0 l0 [THEN conjunct2] _ assms(2)] show ?thesis by simp
  qed
qed


lemma callbacks_no_send_panic: "callbacks es a \<noteq> Inl SendOnClosedChannel"
proof (induction es arbitrary: a)
  case Nil
  show ?case by simp
next
  case (Cons e es)
  have "callback e a \<noteq> Inl SendOnClosedChannel"
    by (cases e) (auto simp: make_chan_def split: sum.splits option.splits if_splits)
  with Cons show ?case by (cases "callback e a") auto
qed

lemma on_cells_no_send_panic:
  "f (cells a) \<noteq> Inl SendOnClosedChannel \<Longrightarrow> on_cells f a \<noteq> Inl SendOnClosedChannel"
  using callbacks_no_send_panic by (cases "f (cells a)") (auto simp: on_cells_def)

lemma Head_Next_panic: "Head_Next s c = Inl p \<Longrightarrow> p = NilDereference"
  by (auto simp: Head_Next_def Let_def split: if_splits option.splits)

lemma section_no_send_panic:
  assumes "actor_inv a" and "x \<noteq> Loop_Next_cell"
  shows "run_section x a \<noteq> Inl SendOnClosedChannel"
proof (cases x)
  case (Enqueue_attempt m)
  with attempt_no_panic [OF assms(1)] show ?thesis by simp
next
  case (Enqueue_expand r)
  then show ?thesis by (simp add: on_cells_no_send_panic)
next
  case Loop_receive
  then show ?thesis by (auto simp: loop_receive_def split: option.splits list.splits)
next
  case Loop_Next
  have "on_cells (\<lambda>s. map_sum id snd (Head_Next s c)) a \<noteq> Inl SendOnClosedChannel" for c
  proof (rule on_cells_no_send_panic)
    show "map_sum id snd (Head_Next (cells a) c) \<noteq> Inl SendOnClosedChannel"
      using Head_Next_panic [of "cells a" c] by (cases "Head_Next (cells a) c") auto
  qed
  with Loop_Next show ?thesis
    by (auto simp: loop_Next_def split: option.splits sum.splits)
next
  case Loop_Next_cell
  with assms(2) show ?thesis by simp
next
  case Terminate_clear_section
  then show ?thesis by (simp add: on_cells_no_send_panic)
next
  case Terminate_close_section
  have "Terminate_close (cells a) \<noteq> Inl SendOnClosedChannel"
    by (simp add: Terminate_close_def)
  with Terminate_close_section show ?thesis by (simp add: on_cells_no_send_panic)
qed

lemma section_no_send_panic_cell:
  assumes inv: "actor_inv a" and lc: "inv_loop_cell a"
  shows "run_section x a \<noteq> Inl SendOnClosedChannel"
proof (cases "x = Loop_Next_cell")
  case False
  with inv show ?thesis by (rule section_no_send_panic)
next
  case True
  show ?thesis
  proof (cases "loop_at_Next a")
    case False
    with True show ?thesis by (simp add: loop_Next_cell_def)
  next
    case at: True
    from loop_Next_cell_val [OF inv lc at] True show ?thesis by simp
  qed
qed

lemma run_no_send_panic_head:
  "actor_inv a \<Longrightarrow> inv_loop_head a \<Longrightarrow> list_all with_ChanCellHead xs \<Longrightarrow>
     run xs a \<noteq> Inl SendOnClosedChannel"
proof (induction xs arbitrary: a)
  case Nil
  show ?case by simp
next
  case (Cons x xs)
  from Cons.prems(3) have x: "with_ChanCellHead x" and xs: "list_all with_ChanCellHead xs"
    by simp_all
  from x have nc: "x \<noteq> Loop_Next_cell" by auto
  show ?case
  proof (cases "run_section x a")
    case (Inl p)
    with section_no_send_panic [OF Cons.prems(1) nc] show ?thesis by simp
  next
    case (Inr a1)
    from actor_inv_section_head [OF Cons.prems(1,2) x Inr]
    have "actor_inv a1" "inv_loop_head a1" by simp_all
    from Cons.IH [OF this xs] Inr show ?thesis by simp
  qed
qed

lemma run_no_send_panic_cell:
  "actor_inv a \<Longrightarrow> inv_loop_cell a \<Longrightarrow> list_all with_ChanCell_Next xs \<Longrightarrow>
     run xs a \<noteq> Inl SendOnClosedChannel"
proof (induction xs arbitrary: a)
  case Nil
  show ?case by simp
next
  case (Cons x xs)
  from Cons.prems(3) have x: "with_ChanCell_Next x" and xs: "list_all with_ChanCell_Next xs"
    by simp_all
  show ?case
  proof (cases "run_section x a")
    case (Inl p)
    with section_no_send_panic_cell [OF Cons.prems(1,2), of x] show ?thesis by simp
  next
    case (Inr a1)
    from actor_inv_section_cell [OF Cons.prems(1,2) x Inr]
    have "actor_inv a1" "inv_loop_cell a1" by simp_all
    from Cons.IH [OF this xs] Inr show ?thesis by simp
  qed
qed

text \<open>
  C2. The package with the actor on top, the loop advancing with \<^verbatim>\<open>ChanCellHead.Next\<close>
  as in the README or with \<^verbatim>\<open>ChanCell.Next\<close>, in every execution: the messages received
  by the loop are, in order, the first of the messages enqueued, and the rest are those
  still in the channels from the cell of the loop onwards; messages are enqueued in the
  order of the cells and received in the order of the cells, so no message written into
  an earlier cell is received after one written into a later cell; the channels of the
  cells the loop has advanced past are empty; no message is ever sent into the channel of
  a cell that was closed; the loop reads the channel of its cell. With \<^verbatim>\<open>ChanCell.Next\<close>,
  whenever the loop is about to advance, the channel of its cell is closed and empty and
  \<^verbatim>\<open>Next\<close> on its cell returns the successor, and the drained cells are exactly the cells
  before the cell of the loop; with \<^verbatim>\<open>ChanCellHead\<close> the cell of the loop is the cell of
  the head.
\<close>

theorem C2_FIFO_across_cells:
  assumes "NewMyActor = Inr a0" and "run xs a0 = Inr a"
    and "list_all with_ChanCellHead xs \<or> list_all with_ChanCell_Next xs"
  shows "enqueued a = received a @ pending a \<and>
         (i < j \<longrightarrow> j < length (received a) \<longrightarrow> fst (received a ! i) \<le> fst (received a ! j)) \<and>
         (i < j \<longrightarrow> j < length (enqueued a) \<longrightarrow> fst (enqueued a ! i) \<le> fst (enqueued a ! j)) \<and>
         (c < loop_msgChan a \<longrightarrow> chans a c = Some ch \<longrightarrow> buffer ch = []) \<and>
         (list_all with_ChanCellHead ys \<or> list_all with_ChanCell_Next ys \<longrightarrow>
            run ys a0 \<noteq> Inl SendOnClosedChannel) \<and>
         loop_msgCell a = Some (loop_msgChan a) \<and>
         (list_all with_ChanCell_Next xs \<longrightarrow> loop_at_Next a \<longrightarrow>
            (\<exists>ch'. chans a (loop_msgChan a) = Some ch' \<and> buffer ch' = [] \<and> closed ch') \<and>
            Next (cells a) (loop_msgChan a)
              = Some (Inr (Suc (loop_msgChan a), mark_drained (cells a) (loop_msgChan a)))) \<and>
         (list_all with_ChanCell_Next xs \<longrightarrow> e < length (heap (cells a)) \<longrightarrow>
            drained (heap (cells a) ! e) = (e < loop_msgChan a)) \<and>
         (list_all with_ChanCellHead xs \<longrightarrow> head_cell (cells a) = Some (loop_msgChan a))"
proof -
  from assms(1) have inv0: "actor_inv a0" by (rule actor_inv_New)
  note l0 = loop_inv_New [OF assms(1)]
  from assms have inv: "actor_inv a" by (rule actor_inv_run)
  then have fi: "inv_fifo a" and il: "inv_loop a" by (simp_all add: actor_inv_def)
  note f1 = inv_fifoD(1) [OF fi]
  note se = inv_fifoD(2) [OF fi]
  from se f1 have sr: "sorted (map fst (received a))" by (simp add: sorted_append)
  have f2: "i < j \<longrightarrow> j < length (received a) \<longrightarrow> fst (received a ! i) \<le> fst (received a ! j)"
    using sorted_nth_mono [OF sr, of i j] by simp
  have f3: "i < j \<longrightarrow> j < length (enqueued a) \<longrightarrow> fst (enqueued a ! i) \<le> fst (enqueued a ! j)"
    using sorted_nth_mono [OF se, of i j] by simp
  have f4: "c < loop_msgChan a \<longrightarrow> chans a c = Some ch \<longrightarrow> buffer ch = []"
    using il by (simp add: inv_loop_def)
  have f5: "list_all with_ChanCellHead ys \<or> list_all with_ChanCell_Next ys \<longrightarrow>
            run ys a0 \<noteq> Inl SendOnClosedChannel"
    using run_no_send_panic_head [OF inv0 l0 [THEN conjunct1]]
          run_no_send_panic_cell [OF inv0 l0 [THEN conjunct2]] by blast
  have f6: "loop_msgCell a = Some (loop_msgChan a)" using il by (simp add: inv_loop_def)
  have f7: "list_all with_ChanCell_Next xs \<longrightarrow> loop_at_Next a \<longrightarrow>
            (\<exists>ch'. chans a (loop_msgChan a) = Some ch' \<and> buffer ch' = [] \<and> closed ch') \<and>
            Next (cells a) (loop_msgChan a)
              = Some (Inr (Suc (loop_msgChan a), mark_drained (cells a) (loop_msgChan a)))"
  proof (intro impI)
    assume c: "list_all with_ChanCell_Next xs" and at: "loop_at_Next a"
    from actor_inv_run_cell [OF inv0 l0 [THEN conjunct2] c assms(2)]
    have lc: "inv_loop_cell a" by simp
    from il at have "\<exists>ch'. chans a (loop_msgChan a) = Some ch' \<and> buffer ch' = [] \<and> closed ch'"
      by (simp add: inv_loop_def)
    with loop_Next_cell_val [OF inv lc at]
    show "(\<exists>ch'. chans a (loop_msgChan a) = Some ch' \<and> buffer ch' = [] \<and> closed ch') \<and>
            Next (cells a) (loop_msgChan a)
              = Some (Inr (Suc (loop_msgChan a), mark_drained (cells a) (loop_msgChan a)))"
      by blast
  qed
  have f8: "list_all with_ChanCell_Next xs \<longrightarrow> e < length (heap (cells a)) \<longrightarrow>
            drained (heap (cells a) ! e) = (e < loop_msgChan a)"
    using actor_inv_run_cell [OF inv0 l0 [THEN conjunct2] _ assms(2)]
    by (simp add: inv_loop_cell_def)
  have f9: "list_all with_ChanCellHead xs \<longrightarrow> head_cell (cells a) = Some (loop_msgChan a)"
    using actor_inv_run_head [OF inv0 l0 [THEN conjunct1] _ assms(2)]
    by (simp add: inv_loop_head_def)
  from f1 f2 f3 f4 f5 f6 f7 f8 f9 show ?thesis by (intro conjI)
qed

lemma example_at_Next_val:
  "run example_prefix (projr NewMyActor) =
     Inr \<lparr>cells = expand NewChanCellTail 0,
          chans = [0 \<mapsto> \<lparr>buffer = [], capacity = 16, closed = True\<rparr>,
                   1 \<mapsto> \<lparr>buffer = [8], capacity = 32, closed = False\<rparr>],
          inner_cell = 1, msgChan = 0, loop_msgChan = 0, loop_msgCell = Some 0,
          loop_at_Next = True, enqueued = [(0, 7), (1, 8)], received = [(0, 7)]\<rparr>"
  apply (simp add: NewMyActor_val example_prefix_def)
  apply (simp add: enqueue_attempt_def NewChanCellTail_def)
  apply (simp add: on_cells_def expand_def Let_def make_chan_def DefaultChanLength_def new_ChanCell_def)
  apply (simp add: enqueue_attempt_def loop_receive_def)
  apply (rule ext)
  apply simp
  done

lemma run_append:
  "run (xs @ ys) a = (case run xs a of Inl p \<Rightarrow> Inl p | Inr a' \<Rightarrow> run ys a')"
  by (induction xs arbitrary: a) (simp_all split: sum.splits)

lemma example_sections_prefix:
  "example_sections = example_prefix @ [Loop_Next, Loop_receive]"
  "example_sections_cell = example_prefix @ [Loop_Next_cell, Loop_receive]"
  by (simp_all add: example_sections_def example_sections_cell_def example_prefix_def)

lemma expand_New_val:
  "expand NewChanCellTail 0 =
     \<lparr>heap = [\<lparr>nxt = Some 1, drained = False\<rparr>, \<lparr>nxt = None, drained = False\<rparr>],
      head_cell = Some 0, tail_cell = Some 1, tail_n = 32, Terminated = False,
      calls = [Init 16 0, Open 0, Init 32 1, Close 0]\<rparr>"
  by (simp add: expand_def NewChanCellTail_def new_ChanCell_def DefaultChanLength_def Let_def)

lemma Next_expand_New:
  "Next (expand NewChanCellTail 0) 0 = Some (Inr (1, mark_drained (expand NewChanCellTail 0) 0))"
  by (subst Next.simps)
     (simp add: Next_mark_def cell_at_def mark_drained_def expand_New_val)

lemma example_actor_val:
  "run example_sections (projr NewMyActor) =
     Inr \<lparr>cells = (expand NewChanCellTail 0)\<lparr>head_cell := Some 1,
                      calls := calls (expand NewChanCellTail 0) @ [Open 1]\<rparr>,
          chans = [0 \<mapsto> \<lparr>buffer = [], capacity = 16, closed = True\<rparr>,
                   1 \<mapsto> \<lparr>buffer = [], capacity = 32, closed = False\<rparr>],
          inner_cell = 1, msgChan = 1, loop_msgChan = 1, loop_msgCell = Some 1,
          loop_at_Next = False, enqueued = [(0, 7), (1, 8)], received = [(0, 7), (1, 8)]\<rparr>"
  apply (simp only: example_sections_prefix run_append example_at_Next_val sum.case)
  apply (simp add: loop_receive_def loop_Next_def on_cells_def Head_Next_def
            Head_WithCell_def cell_at_def expand_New_val)
  done

lemma example_actor_cell_val:
  "run example_sections_cell (projr NewMyActor) =
     Inr \<lparr>cells = mark_drained (expand NewChanCellTail 0) 0,
          chans = [0 \<mapsto> \<lparr>buffer = [], capacity = 16, closed = True\<rparr>,
                   1 \<mapsto> \<lparr>buffer = [], capacity = 32, closed = False\<rparr>],
          inner_cell = 1, msgChan = 1, loop_msgChan = 1, loop_msgCell = Some 1,
          loop_at_Next = False, enqueued = [(0, 7), (1, 8)], received = [(0, 7), (1, 8)]\<rparr>"
  apply (simp only: example_sections_prefix run_append example_at_Next_val sum.case)
  apply (simp add: loop_Next_cell_def Next_expand_New on_cells_def)
  apply (simp add: mark_drained_def expand_New_val loop_receive_def)
  done

theorem C2_witness:
  "(NewMyActor :: panic + nat MyActor) = Inr (projr NewMyActor) \<and>
   run example_sections (projr NewMyActor) = Inr example_actor \<and>
   list_all with_ChanCellHead example_sections \<and>
   enqueued example_actor = [(0, 7), (1, 8)] \<and>
   received example_actor = [(0, 7), (1, 8)] \<and>
   enqueued example_actor = received example_actor @ pending example_actor \<and>
   (0::nat) < 1 \<and> 1 < length (received example_actor) \<and>
   fst (received example_actor ! 0) \<le> fst (received example_actor ! 1) \<and>
   0 < loop_msgChan example_actor \<and>
   chans example_actor 0 = Some \<lparr>buffer = [], capacity = 16, closed = True\<rparr> \<and>
   run example_sections (projr NewMyActor) \<noteq> Inl SendOnClosedChannel \<and>
   head_cell (cells example_actor) = Some (loop_msgChan example_actor) \<and>
   run example_sections_cell (projr NewMyActor) = Inr example_actor_cell \<and>
   list_all with_ChanCell_Next example_sections_cell \<and>
   received example_actor_cell = [(0, 7), (1, 8)] \<and>
   enqueued example_actor_cell = received example_actor_cell @ pending example_actor_cell \<and>
   1 < length (received example_actor_cell) \<and>
   fst (received example_actor_cell ! 0) \<le> fst (received example_actor_cell ! 1) \<and>
   run example_sections_cell (projr NewMyActor) \<noteq> Inl SendOnClosedChannel \<and>
   loop_msgCell example_actor_cell = Some (loop_msgChan example_actor_cell) \<and>
   0 < length (heap (cells example_actor_cell)) \<and>
   drained (heap (cells example_actor_cell) ! 0) = (0 < loop_msgChan example_actor_cell) \<and>
   run example_prefix (projr NewMyActor) = Inr example_at_Next \<and>
   list_all with_ChanCell_Next example_prefix \<and>
   loop_at_Next example_at_Next \<and>
   Next (cells example_at_Next) (loop_msgChan example_at_Next)
     = Some (Inr (Suc (loop_msgChan example_at_Next),
                  mark_drained (cells example_at_Next) (loop_msgChan example_at_Next)))"
proof -
  have h1: "(NewMyActor :: panic + nat MyActor) = Inr (projr NewMyActor)"
    by (simp add: NewMyActor_val)
  have h2: "run example_sections (projr NewMyActor) = Inr example_actor"
    by (simp only: example_actor_def example_actor_val sum.sel)
  have h3: "list_all with_ChanCellHead example_sections" by (simp add: example_sections_def)
  have v: "enqueued example_actor = [(0, 7), (1, 8)]" "received example_actor = [(0, 7), (1, 8)]"
    "loop_msgChan example_actor = 1"
    "chans example_actor 0 = Some \<lparr>buffer = [], capacity = 16, closed = True\<rparr>"
    by (simp_all add: example_actor_def example_actor_val)
  have k: "(0::nat) < 1" by simp
  have l: "1 < length (received example_actor)" by (simp add: v)
  have c: "0 < loop_msgChan example_actor" by (simp add: v)
  have g2: "run example_sections_cell (projr NewMyActor) = Inr example_actor_cell"
    by (simp only: example_actor_cell_def example_actor_cell_val sum.sel)
  have g3: "list_all with_ChanCell_Next example_sections_cell"
    by (simp add: example_sections_cell_def)
  have u: "received example_actor_cell = [(0, 7), (1, 8)]"
    by (simp add: example_actor_cell_def example_actor_cell_val)
  have lc: "1 < length (received example_actor_cell)" by (simp add: u)
  have e0: "0 < length (heap (cells example_actor_cell))"
    by (simp add: example_actor_cell_def example_actor_cell_val mark_drained_def expand_New_val)
  have p2: "run example_prefix (projr NewMyActor) = Inr example_at_Next"
    by (simp only: example_at_Next_def example_at_Next_val sum.sel)
  have p3: "list_all with_ChanCell_Next example_prefix" by (simp add: example_prefix_def)
  have at: "loop_at_Next example_at_Next"
    by (simp add: example_at_Next_def example_at_Next_val)
  note T = C2_FIFO_across_cells
      [OF h1 h2 disjI1 [OF h3], where i = 0 and j = 1 and c = 0
         and ch = "\<lparr>buffer = [], capacity = 16, closed = True\<rparr>" and ys = example_sections]
  note U = C2_FIFO_across_cells
      [OF h1 g2 disjI2 [OF g3], where i = 0 and j = 1 and e = 0 and ys = example_sections_cell]
  note V = C2_FIFO_across_cells [OF h1 p2 disjI2 [OF p3]]
  from T [THEN conjunct1]
  have w1: "enqueued example_actor = received example_actor @ pending example_actor" .
  from T [THEN conjunct2, THEN conjunct1, rule_format, OF k l]
  have w2: "fst (received example_actor ! 0) \<le> fst (received example_actor ! 1)" .
  from T [THEN conjunct2, THEN conjunct2, THEN conjunct2, THEN conjunct2, THEN conjunct1,
          rule_format, OF disjI1 [OF h3]]
  have w3: "run example_sections (projr NewMyActor) \<noteq> Inl SendOnClosedChannel" .
  from T [THEN conjunct2, THEN conjunct2, THEN conjunct2, THEN conjunct2, THEN conjunct2,
          THEN conjunct2, THEN conjunct2, THEN conjunct2, rule_format, OF h3]
  have w4: "head_cell (cells example_actor) = Some (loop_msgChan example_actor)" .
  from U [THEN conjunct1]
  have x1: "enqueued example_actor_cell
            = received example_actor_cell @ pending example_actor_cell" .
  from U [THEN conjunct2, THEN conjunct1, rule_format, OF k lc]
  have x2: "fst (received example_actor_cell ! 0) \<le> fst (received example_actor_cell ! 1)" .
  from U [THEN conjunct2, THEN conjunct2, THEN conjunct2, THEN conjunct2, THEN conjunct1,
          rule_format, OF disjI2 [OF g3]]
  have x3: "run example_sections_cell (projr NewMyActor) \<noteq> Inl SendOnClosedChannel" .
  from U [THEN conjunct2, THEN conjunct2, THEN conjunct2, THEN conjunct2, THEN conjunct2,
          THEN conjunct1]
  have x4: "loop_msgCell example_actor_cell = Some (loop_msgChan example_actor_cell)" .
  from U [THEN conjunct2, THEN conjunct2, THEN conjunct2, THEN conjunct2, THEN conjunct2,
          THEN conjunct2, THEN conjunct2, THEN conjunct1, rule_format, OF g3 e0]
  have x5: "drained (heap (cells example_actor_cell) ! 0)
            = (0 < loop_msgChan example_actor_cell)" .
  from V [THEN conjunct2, THEN conjunct2, THEN conjunct2, THEN conjunct2, THEN conjunct2,
          THEN conjunct2, THEN conjunct1, rule_format, OF p3 at, THEN conjunct2]
  have y1: "Next (cells example_at_Next) (loop_msgChan example_at_Next)
     = Some (Inr (Suc (loop_msgChan example_at_Next),
                  mark_drained (cells example_at_Next) (loop_msgChan example_at_Next)))" .
  show ?thesis
    using h1 h2 h3 v(1) v(2) w1 k l w2 c v(4) w3 w4 g2 g3 u x1 lc x2 x3 x4 e0 x5 p2 p3 at y1
    by (intro conjI)
qed

subsection \<open>The attempt in use\<close>

lemma WithCell_stale_then_full:
  "WithCell NewChanCellTail stale_then_full = Some (True, three_cells)"
  apply (subst WithCell.simps)
  apply (simp add: NewChanCellTail_def stale_then_full_def)
  apply (subst WithCell.simps)
  apply (simp add: full_twice_def)
  apply (subst WithCell.simps)
  apply (simp add: expand_def Let_def full_twice_def)
  apply (subst WithCell.simps)
  apply (simp add: expand_def Let_def full_twice_def three_cells_def NewChanCellTail_def)
  done

lemma WithCell_as_claimed_stale_then_full:
  "WithCell_as_claimed stale_then_full NewChanCellTail stale_then_full
     = Some (True, expand NewChanCellTail 0)"
  apply (subst WithCell_as_claimed.simps)
  apply (simp add: NewChanCellTail_def stale_then_full_def)
  apply (subst WithCell_as_claimed.simps)
  apply (simp add: full_twice_def)
  apply (subst WithCell_as_claimed.simps)
  apply (simp add: expand_def Let_def stale_then_full_def)
  done

lemma WithCell_iff_among_alone:
  "(WithCell s f = Some r) = (\<exists>n. WithCell_among (replicate n []) s f = Some (Inr r))"
  using WithCell_alone_among WithCell_among_alone by blast

text \<open>
  C5, as the code has it. In an iteration of \<^verbatim>\<open>WithCell\<close> the attempt in use is applied to
  the current cell. When it succeeds the call returns true. When it fails without a
  continuation the tail grows on that cell (after whatever the others ran in between)
  and the loop goes on with the same attempt, the one just applied. When it fails with a
  continuation the loop goes on at once with the continuation, which stays the attempt in
  use: a growth that follows goes on with the continuation, not with the attempt the
  caller passed. This holds for the call run alone and for the call run among others,
  and the call run alone is the call run among others that do nothing.
\<close>

theorem C5_WithCell_iteration_keeps_attempt_in_use:
  assumes "exec others s0 = Inr s" and "tail_cell s = Some cell"
  shows "(call f cell = (True, k) \<longrightarrow>
            WithCell s f = Some (True, s) \<and>
            WithCell_among (others # rest) s0 f = Some (Inr (True, s))) \<and>
         (call f cell = (False, None) \<longrightarrow>
            WithCell s f = WithCell (expand s cell) f \<and>
            WithCell_among [others] s0 f = None \<and>
            (exec others' s = Inr s2 \<longrightarrow>
               WithCell_among (others # others' # rest) s0 f
                 = WithCell_among rest (expand s2 cell) f) \<and>
            (exec others' s = Inl p \<longrightarrow>
               WithCell_among (others # others' # rest) s0 f = Some (Inl p))) \<and>
         (call f cell = (False, Some g) \<longrightarrow>
            WithCell s f = WithCell s g \<and>
            WithCell_among (others # rest) s0 f = WithCell_among rest s g) \<and>
         (call f cell = (False, Some g) \<longrightarrow> call g cell = (False, None) \<longrightarrow>
            WithCell s f = WithCell (expand s cell) g \<and>
            (exec others' s = Inr s2 \<longrightarrow>
               WithCell_among (others # [] # others' # rest) s0 f
                 = WithCell_among rest (expand s2 cell) g)) \<and>
         ((WithCell s f = Some r) = (\<exists>n. WithCell_among (replicate n []) s f = Some (Inr r)))"
proof (intro conjI impI)
  assume c: "call f cell = (True, k)"
  show "WithCell s f = Some (True, s)"
    using assms(2) c by (subst WithCell.simps) simp
  show "WithCell_among (others # rest) s0 f = Some (Inr (True, s))"
    using assms c by simp
next
  assume c: "call f cell = (False, None)"
  show "WithCell s f = WithCell (expand s cell) f"
    using assms(2) c by (subst WithCell.simps) simp
  show "WithCell_among [others] s0 f = None"
    using assms c by simp
next
  assume c: "call f cell = (False, None)" and e: "exec others' s = Inr s2"
  show "WithCell_among (others # others' # rest) s0 f = WithCell_among rest (expand s2 cell) f"
    using assms c e by simp
next
  assume c: "call f cell = (False, None)" and e: "exec others' s = Inl p"
  show "WithCell_among (others # others' # rest) s0 f = Some (Inl p)"
    using assms c e by simp
next
  assume c: "call f cell = (False, Some g)"
  show "WithCell s f = WithCell s g"
    using assms(2) c by (subst WithCell.simps) simp
  show "WithCell_among (others # rest) s0 f = WithCell_among rest s g"
    using assms c by simp
next
  assume c: "call f cell = (False, Some g)" and d: "call g cell = (False, None)"
  have "WithCell s f = WithCell s g"
    using assms(2) c by (subst WithCell.simps) simp
  also have "\<dots> = WithCell (expand s cell) g"
    using assms(2) d by (subst WithCell.simps) simp
  finally show "WithCell s f = WithCell (expand s cell) g" .
next
  assume c: "call f cell = (False, Some g)" and d: "call g cell = (False, None)"
    and e: "exec others' s = Inr s2"
  show "WithCell_among (others # [] # others' # rest) s0 f
          = WithCell_among rest (expand s2 cell) g"
    using assms c d e by simp
next
  show "(WithCell s f = Some r) = (\<exists>n. WithCell_among (replicate n []) s f = Some (Inr r))"
    by (rule WithCell_iff_among_alone)
qed


theorem C5_witness:
  "exec [] NewChanCellTail = Inr NewChanCellTail \<and>
   tail_cell NewChanCellTail = Some 0 \<and>
   call succeeds 0 = (True, None) \<and>
   WithCell NewChanCellTail succeeds = Some (True, NewChanCellTail) \<and>
   WithCell_among [[]] NewChanCellTail succeeds = Some (Inr (True, NewChanCellTail)) \<and>
   call full_on_first 0 = (False, None) \<and>
   WithCell NewChanCellTail full_on_first = WithCell (expand NewChanCellTail 0) full_on_first \<and>
   WithCell_among [[]] NewChanCellTail full_on_first = None \<and>
   exec [Do_expand 0] NewChanCellTail = Inr (expand NewChanCellTail 0) \<and>
   WithCell_among [[], [Do_expand 0], []] NewChanCellTail full_on_first
     = WithCell_among [[]] (expand (expand NewChanCellTail 0) 0) full_on_first \<and>
   exec [Do_Terminate_close, Do_Terminate_close] NewChanCellTail = Inl CloseOfClosedChannel \<and>
   WithCell_among [[], [Do_Terminate_close, Do_Terminate_close], []] NewChanCellTail full_on_first
     = Some (Inl CloseOfClosedChannel) \<and>
   call retry_once 0 = (False, Some succeeds) \<and>
   WithCell NewChanCellTail retry_once = WithCell NewChanCellTail succeeds \<and>
   WithCell_among [[], []] NewChanCellTail retry_once
     = WithCell_among [[]] NewChanCellTail succeeds \<and>
   call stale_then_full 0 = (False, Some full_twice) \<and>
   call full_twice 0 = (False, None) \<and>
   WithCell NewChanCellTail stale_then_full = WithCell (expand NewChanCellTail 0) full_twice \<and>
   WithCell_among [[], [], [Do_expand 0], []] NewChanCellTail stale_then_full
     = WithCell_among [[]] (expand (expand NewChanCellTail 0) 0) full_twice"
proof -
  let ?s = NewChanCellTail
  have e: "exec [] ?s = Inr ?s" by simp
  have t: "tail_cell ?s = Some 0" by (simp add: NewChanCellTail_def)
  have c1: "call succeeds 0 = (True, None)" by (simp add: succeeds_def)
  have c2: "call full_on_first 0 = (False, None)" by (simp add: full_on_first_def)
  have c3: "call retry_once 0 = (False, Some succeeds)" by (simp add: retry_once_def)
  have c4: "call stale_then_full 0 = (False, Some full_twice)" by (simp add: stale_then_full_def)
  have c5: "call full_twice 0 = (False, None)" by (simp add: full_twice_def)
  have x: "exec [Do_expand 0] ?s = Inr (expand ?s 0)" by simp
  have y: "exec [Do_Terminate_close, Do_Terminate_close] ?s = Inl CloseOfClosedChannel"
    by (simp add: Terminate_close_def NewChanCellTail_def)
  note A = C5_WithCell_iteration_keeps_attempt_in_use
      [OF e t, where f = succeeds and k = None and rest = "[]"]
  note B = C5_WithCell_iteration_keeps_attempt_in_use
      [OF e t, where f = full_on_first and others' = "[Do_expand 0]"
         and ?s2.0 = "expand ?s 0" and rest = "[[]]"]
  note B' = C5_WithCell_iteration_keeps_attempt_in_use
      [OF e t, where f = full_on_first and others' = "[Do_Terminate_close, Do_Terminate_close]"
         and p = CloseOfClosedChannel and rest = "[[]]"]
  note C = C5_WithCell_iteration_keeps_attempt_in_use
      [OF e t, where f = retry_once and g = succeeds and rest = "[[]]"]
  note D = C5_WithCell_iteration_keeps_attempt_in_use
      [OF e t, where f = stale_then_full and g = full_twice and others' = "[Do_expand 0]"
         and ?s2.0 = "expand ?s 0" and rest = "[[]]"]
  note a = A [THEN conjunct1, rule_format, OF c1]
  note b = B [THEN conjunct2, THEN conjunct1, rule_format, OF c2]
  note b' = B' [THEN conjunct2, THEN conjunct1, rule_format, OF c2]
  note c = C [THEN conjunct2, THEN conjunct2, THEN conjunct1, rule_format, OF c3]
  note d = D [THEN conjunct2, THEN conjunct2, THEN conjunct2, THEN conjunct1, rule_format, OF c4 c5]
  from a have w1: "WithCell ?s succeeds = Some (True, ?s)"
    and w2: "WithCell_among [[]] ?s succeeds = Some (Inr (True, ?s))" by blast+
  from b have w3: "WithCell ?s full_on_first = WithCell (expand ?s 0) full_on_first"
    and w4: "WithCell_among [[]] ?s full_on_first = None" by blast+
  from b [THEN conjunct2, THEN conjunct2, THEN conjunct1, rule_format, OF x]
  have w5: "WithCell_among [[], [Do_expand 0], []] ?s full_on_first
     = WithCell_among [[]] (expand (expand ?s 0) 0) full_on_first" .
  from b' [THEN conjunct2, THEN conjunct2, THEN conjunct2, rule_format, OF y]
  have w6: "WithCell_among [[], [Do_Terminate_close, Do_Terminate_close], []] ?s full_on_first
     = Some (Inl CloseOfClosedChannel)" .
  from c have w7: "WithCell ?s retry_once = WithCell ?s succeeds"
    and w8: "WithCell_among [[], []] ?s retry_once = WithCell_among [[]] ?s succeeds" by blast+
  from d have w9: "WithCell ?s stale_then_full = WithCell (expand ?s 0) full_twice" by blast
  from d [THEN conjunct2, rule_format, OF x]
  have w10: "WithCell_among [[], [], [Do_expand 0], []] ?s stale_then_full
     = WithCell_among [[]] (expand (expand ?s 0) 0) full_twice" .
  show ?thesis using e t c1 w1 w2 c2 w3 w4 x w5 y w6 c3 w7 w8 c4 c5 w9 w10 by (intro conjI)
qed

text \<open>
  C5 as stated fails after a continuation: the claim has the loop go back to the attempt
  the caller passed once the tail has grown. \<open>WithCell_as_claimed\<close> is the loop in the
  words of the claim. On a new chain, with an attempt that hands back a continuation on
  the first cell and succeeds on any other, and a continuation that finds the first two
  cells full, the code grows the chain twice and ends with three cells; as claimed it
  would grow once and end with two.
\<close>

theorem C5_counterexample:
  "call stale_then_full 0 = (False, Some full_twice) \<and>
   call full_twice 0 = (False, None) \<and>
   call full_twice 1 = (False, None) \<and>
   call stale_then_full 1 = (True, None) \<and>
   WithCell NewChanCellTail stale_then_full = Some (True, three_cells) \<and>
   WithCell_as_claimed stale_then_full NewChanCellTail stale_then_full
     = Some (True, expand NewChanCellTail 0) \<and>
   length (heap three_cells) = 3 \<and>
   length (heap (expand NewChanCellTail 0)) = 2 \<and>
   WithCell NewChanCellTail stale_then_full
     \<noteq> WithCell_as_claimed stale_then_full NewChanCellTail stale_then_full"
proof -
  have l3: "length (heap three_cells) = 3" by (simp add: three_cells_val)
  have l2: "length (heap (expand NewChanCellTail 0)) = 2"
    by (simp add: expand_def Let_def NewChanCellTail_def)
  from l3 l2 have ne: "three_cells \<noteq> expand NewChanCellTail 0" by auto
  have c: "call stale_then_full 0 = (False, Some full_twice)" "call full_twice 0 = (False, None)"
    "call full_twice 1 = (False, None)" "call stale_then_full 1 = (True, None)"
    by (simp_all add: stale_then_full_def full_twice_def)
  from ne have d: "WithCell NewChanCellTail stale_then_full
     \<noteq> WithCell_as_claimed stale_then_full NewChanCellTail stale_then_full"
    by (simp add: WithCell_stale_then_full WithCell_as_claimed_stale_then_full)
  show ?thesis
    using c WithCell_stale_then_full WithCell_as_claimed_stale_then_full l3 l2 d
    by (intro conjI)
qed

end
